theory Spec2Isabelle
  imports Main "HOL-Library.Word"
begin

unbundle bit_operations_syntax

section \<open>Common definitions\<close>

text \<open>
  Two ways a call can fail to return: a failed \<^verbatim>\<open>ASSERT\<close> (Pintos panics the kernel)
  and undefined behaviour of the C program (a shift by a count outside the width of the
  operand, an array access outside its bounds, a list operation on an element that is in
  no list).
\<close>

datatype error = AssertFail | Undefined

text \<open>
  Modelled from the spec: the build configuration, that is what the headers absent from
  the sources (\<^verbatim>\<open>debug.h\<close>, \<^verbatim>\<open>threads/thread.h\<close>) define.
  \<^verbatim>\<open>NDEBUG\<close> turns \<^verbatim>\<open>ASSERT\<close> into a no-operation (\<^verbatim>\<open>malloc.c\<close> itself tests
  \<^verbatim>\<open>#ifndef NDEBUG\<close>); the signal numbers, \<^verbatim>\<open>NUM_SIGNAL\<close> and the two values of
  \<^verbatim>\<open>enum sighandler_t\<close> are taken as parameters.
\<close>

record config =
  NDEBUG :: bool
  NUM_SIGNAL :: nat
  SIG_CHLD :: int
  SIG_CPU :: int
  SIG_UBLOCK :: int
  SIG_KILL :: int
  SIG_DFL :: int
  SIG_IGN :: int

text \<open>
  The signal numbers are distinct indices into \<^verbatim>\<open>signals[NUM_SIGNAL]\<close>, a mask has a bit
  for each of them in a 32-bit word, and the two handler values differ.
\<close>

definition wf_config :: "config \<Rightarrow> bool" where
  "wf_config c \<longleftrightarrow>
     NUM_SIGNAL c < 32 \<and>
     distinct [SIG_CHLD c, SIG_CPU c, SIG_UBLOCK c, SIG_KILL c] \<and>
     list_all (\<lambda>g. 0 \<le> g \<and> g < int (NUM_SIGNAL c))
       [SIG_CHLD c, SIG_CPU c, SIG_UBLOCK c, SIG_KILL c] \<and>
     SIG_DFL c \<noteq> SIG_IGN c"

text \<open>\<^verbatim>\<open>ASSERT (cond)\<close>: panics when assertions are compiled in and the condition fails.\<close>

definition ASSERT :: "config \<Rightarrow> bool \<Rightarrow> (error + 'a) \<Rightarrow> error + 'a" where
  "ASSERT c cond k = (if \<not> NDEBUG c \<and> \<not> cond then Inl AssertFail else k)"

section \<open>Signals (signals/signal.c)\<close>

datatype intr_level = INTR_OFF | INTR_ON

text \<open>Modelled from the spec: the thread states of the absent \<^verbatim>\<open>threads/thread.h\<close>.\<close>

datatype thread_status = THREAD_RUNNING | THREAD_READY | THREAD_BLOCKED | THREAD_DYING

text \<open>A pending-signal slot; \<open>type_sig = -1\<close> marks it empty.\<close>

record signal_slot =
  type_sig :: int
  sent_by :: int

text \<open>
  Modelled from the spec: the fields of \<^verbatim>\<open>struct thread\<close> that \<^verbatim>\<open>signal.c\<close> uses.
  \<^verbatim>\<open>sigset_t\<close> is taken as an unsigned 32-bit word. \<open>signals\<close> is the array
  \<^verbatim>\<open>signals[NUM_SIGNAL]\<close>, indexed below \<^verbatim>\<open>NUM_SIGNAL\<close> only; \<open>signals_queue\<close> lists
  the queued slots' links, each named by the index of its slot.
\<close>

record thread =
  tid :: int
  ptid :: int
  status :: thread_status
  mask_sig :: "32 word"
  signals :: "nat \<Rightarrow> signal_slot"
  signals_queue :: "nat list"

text \<open>
  The kernel state the signal calls read and write. Threads live in a store indexed by
  the address of their descriptor; \<open>running\<close> is the descriptor \<^verbatim>\<open>running_thread ()\<close>
  and \<^verbatim>\<open>thread_current ()\<close> return, \<open>thread_lookup\<close> the absent function of that name
  (\<open>None\<close> is its null result), \<open>to_unblock_list\<close> the external list of \<^verbatim>\<open>blkelem\<close>
  links (each named by its thread's address), and \<open>sigset_mem\<close> the caller's memory
  holding \<^verbatim>\<open>sigset_t\<close> objects, address 0 being the null pointer.
\<close>

record kstate =
  intr :: intr_level
  running :: nat
  thr :: "nat \<Rightarrow> thread"
  thread_lookup :: "int \<Rightarrow> nat option"
  to_unblock_list :: "nat list"
  sigset_mem :: "nat \<Rightarrow> 32 word"

definition NULL :: nat where
  "NULL = 0"

text \<open>\<^verbatim>\<open>intr_disable ()\<close> returns the previous level; \<^verbatim>\<open>intr_set_level\<close> restores it.\<close>

definition intr_disable :: "kstate \<Rightarrow> intr_level \<times> kstate" where
  "intr_disable s = (intr s, s\<lparr>intr := INTR_OFF\<rparr>)"

definition intr_set_level :: "intr_level \<Rightarrow> kstate \<Rightarrow> kstate" where
  "intr_set_level l s = s\<lparr>intr := l\<rparr>"

text \<open>
  A shift of a 32-bit operand by \<open>n\<close> is defined for \<open>0 \<le> n < 32\<close> only
  (\<^verbatim>\<open>1 << 31\<close> on \<^verbatim>\<open>int\<close> as GCC defines it).
\<close>

definition shift_ok :: "int \<Rightarrow> bool" where
  "shift_ok n \<longleftrightarrow> 0 \<le> n \<and> n < 32"

definition set_mask :: "nat \<Rightarrow> 32 word \<Rightarrow> kstate \<Rightarrow> kstate" where
  "set_mask t m s = s\<lparr>thr := (thr s)(t := (thr s t)\<lparr>mask_sig := m\<rparr>)\<rparr>"

text \<open>\<^verbatim>\<open>enum sighandler_t Signal (int signum, enum sighandler_t handler)\<close>\<close>

definition Signal :: "config \<Rightarrow> kstate \<Rightarrow> int \<Rightarrow> int \<Rightarrow> error + (int \<times> kstate)" where
  "Signal c s signum handler =
     (if signum = SIG_KILL c then Inr (0, s)
      else ASSERT c (intr s = INTR_ON)
       (let (old_level, s1) = intr_disable s;
            cur = running s1
        in if \<not> shift_ok signum then Inl Undefined
           else
            let old_handler =
                  (if bit (mask_sig (thr s1 cur)) (nat signum) then SIG_IGN c else SIG_DFL c);
                s2 = (if old_handler \<noteq> handler
                      then set_mask cur (mask_sig (thr s1 cur) XOR push_bit (nat signum) 1) s1
                      else s1)
            in Inr (old_handler, intr_set_level old_level s2)))"

definition set_slot :: "nat \<Rightarrow> nat \<Rightarrow> signal_slot \<Rightarrow> kstate \<Rightarrow> kstate" where
  "set_slot x i v s = s\<lparr>thr := (thr s)(x := (thr s x)\<lparr>signals := (signals (thr s x))(i := v)\<rparr>)\<rparr>"

definition queue_push_back :: "nat \<Rightarrow> nat \<Rightarrow> kstate \<Rightarrow> kstate" where
  "queue_push_back x i s =
     s\<lparr>thr := (thr s)(x := (thr s x)\<lparr>signals_queue := signals_queue (thr s x) @ [i]\<rparr>)\<rparr>"

text \<open>\<^verbatim>\<open>int kill (int tid, int sig)\<close>, the spec's \<open>send\<close>.\<close>

definition kill :: "config \<Rightarrow> kstate \<Rightarrow> int \<Rightarrow> int \<Rightarrow> error + (int \<times> kstate)" where
  "kill c s tid' sig =
     (if sig = SIG_CHLD c \<or> sig = SIG_CPU c \<or> tid' \<le> 2 then Inr (- 1, s)
      else ASSERT c (intr s = INTR_ON)
       (let (old_level, s1) = intr_disable s
        in case thread_lookup s1 tid' of
             None \<Rightarrow> Inr (- 1, intr_set_level old_level s1)
           | Some x \<Rightarrow>
              if sig \<noteq> SIG_KILL c \<and> \<not> shift_ok sig then Inl Undefined
              else if sig \<noteq> SIG_KILL c \<and> bit (mask_sig (thr s1 x)) (nat sig)
                then Inr (0, intr_set_level old_level s1)
              else if sig = SIG_UBLOCK c then
                (let s2 = (if status (thr s1 x) = THREAD_BLOCKED
                           then s1\<lparr>to_unblock_list := to_unblock_list s1 @ [x]\<rparr> else s1)
                 in Inr (0, intr_set_level old_level s2))
              else if sig = SIG_KILL c \<and> ptid (thr s1 x) \<noteq> tid (thr s1 (running s1))
                then Inr (- 1, intr_set_level old_level s1)
              else if \<not> (0 \<le> sig \<and> sig < int (NUM_SIGNAL c)) then Inl Undefined
              else if type_sig (signals (thr s1 x) (nat sig)) \<noteq> - 1 then
                (let s2 = set_slot x (nat sig)
                            ((signals (thr s1 x) (nat sig))
                               \<lparr>sent_by := tid (thr s1 (running s1))\<rparr>) s1
                 in Inr (0, intr_set_level old_level s2))
              else
                (let s2 = set_slot x (nat sig)
                            ((signals (thr s1 x) (nat sig))\<lparr>type_sig := sig\<rparr>) s1;
                     s3 = set_slot x (nat sig)
                            ((signals (thr s2 x) (nat sig))
                               \<lparr>sent_by := tid (thr s2 (running s2))\<rparr>) s2;
                     s4 = queue_push_back x (nat sig) s3
                 in Inr (0, intr_set_level old_level s4))))"

text \<open>The values of \<open>how\<close>, from the comment above \<^verbatim>\<open>sigprocmask\<close>.\<close>

definition SIG_BLOCK :: int where "SIG_BLOCK = 0"
definition SIG_UNBLOCK :: int where "SIG_UNBLOCK = 1"
definition SIG_SETMASK :: int where "SIG_SETMASK = 2"

text \<open>
  \<^verbatim>\<open>int sigprocmask (int how, const sigset_t *set, sigset_t *oldset)\<close>. The two pointers
  are addresses in \<open>sigset_mem\<close> and may be equal; \<^verbatim>\<open>*set\<close> is read again after
  \<^verbatim>\<open>*oldset\<close> has been written.
\<close>

definition sigprocmask :: "config \<Rightarrow> kstate \<Rightarrow> int \<Rightarrow> nat \<Rightarrow> nat \<Rightarrow> error + (int \<times> kstate)" where
  "sigprocmask c s how set' oldset =
     (if set' \<noteq> NULL \<and> \<not> NUM_SIGNAL c < 32 then Inl Undefined
      else if set' \<noteq> NULL \<and> sigset_mem s set' \<ge> push_bit (NUM_SIGNAL c) 1 then Inr (- 1, s)
      else ASSERT c (intr s = INTR_ON)
       (let (old_level, s1) = intr_disable s;
            cur = running s1;
            s2 = (if oldset \<noteq> NULL
                  then s1\<lparr>sigset_mem := (sigset_mem s1)(oldset := mask_sig (thr s1 cur))\<rparr>
                  else s1)
        in if set' = NULL then Inr (0, intr_set_level old_level s2)
           else if how = SIG_BLOCK then
             Inr (0, intr_set_level old_level
                       (set_mask cur (mask_sig (thr s2 cur) OR sigset_mem s2 set') s2))
           else if how = SIG_UNBLOCK then
             (if \<not> NUM_SIGNAL c < 32 then Inl Undefined
              else Inr (0, intr_set_level old_level
                       (set_mask cur
                          (mask_sig (thr s2 cur) AND
                             ((push_bit (NUM_SIGNAL c) 1 - 1) XOR sigset_mem s2 set')) s2)))
           else if how = SIG_SETMASK then
             Inr (0, intr_set_level old_level (set_mask cur (sigset_mem s2 set') s2))
           else Inr (- 1, intr_set_level old_level s2)))"

section \<open>The buddy allocator (mlfq and buddy/malloc.c)\<close>

text \<open>
  Modelled from the spec: \<^verbatim>\<open>PGBITS\<close> and \<^verbatim>\<open>PGSIZE\<close> of the absent
  \<^verbatim>\<open>threads/vaddr.h\<close> (the spec's scenarios take PageSize 4096, and the refill path of
  \<^verbatim>\<open>malloc\<close> names \<^verbatim>\<open>descs[7]\<close>, the class of 2048 bytes).
\<close>

definition PGBITS :: nat where "PGBITS = 12"
definition PGSIZE :: nat where "PGSIZE = 2 ^ PGBITS"

definition pg_round_down :: "nat \<Rightarrow> nat" where
  "pg_round_down va = va - va mod PGSIZE"

definition ARENA_MAGIC :: "32 word" where "ARENA_MAGIC = 0x9a548eed"

text \<open>The number of entries of \<^verbatim>\<open>arr\<close> in \<^verbatim>\<open>struct arena\<close>.\<close>

definition ARR_LEN :: nat where "ARR_LEN = 2 ^ (PGBITS - 1 - 4)"

text \<open>
  \<^verbatim>\<open>struct arena\<close>: the magic number and the slot map \<^verbatim>\<open>arr\<close>, indexed below
  \<open>ARR_LEN\<close> only. The member \<^verbatim>\<open>elem\<close> is the arena's link in \<open>page_list\<close>, which names
  an arena by its address.
\<close>

record arena =
  magic :: "32 word"
  arr :: "nat \<Rightarrow> int"

text \<open>
  Modelled from the spec: \<^verbatim>\<open>sizeof (struct arena)\<close> on the 32-bit target of Pintos,
  4 bytes of magic, two pointers of the \<^verbatim>\<open>struct list_elem\<close> declared in the absent
  \<^verbatim>\<open>list.h\<close>, and \<open>ARR_LEN\<close> integers of 4 bytes.
\<close>

definition sizeof_arena :: nat where "sizeof_arena = 4 + 8 + 4 * ARR_LEN"

text \<open>
  The state of the allocator. \<^verbatim>\<open>malloc_init\<close> fills \<^verbatim>\<open>descs\<close> once: \<open>desc_cnt\<close>
  descriptors, the one at index \<open>i\<close> with block size \<open>16 * 2 ^ i\<close>; afterwards
  only the free lists change, so the state keeps \<open>free_list i\<close> for
  \<^verbatim>\<open>descs[i].free_list\<close>. The intrusive lists of the absent \<^verbatim>\<open>list.h\<close> are lists of
  the addresses of their elements (modelled from the spec: \<open>push_back\<close>, \<open>pop_front\<close>,
  \<open>remove\<close>); the bytes of the links inside free blocks are not part of \<open>mem\<close>, and the
  descriptor locks, taken and released in pairs by one thread, are left out.
  \<open>arena_at\<close> reads the page at an address as a \<^verbatim>\<open>struct arena\<close>, \<open>mem\<close> holds the
  bytes of the payload, and \<open>pool\<close> is the page provider.
\<close>

record heap =
  free_list :: "nat \<Rightarrow> nat list"
  page_list :: "nat list"
  arena_at :: "nat \<Rightarrow> arena"
  mem :: "nat \<Rightarrow> 8 word"
  pool :: "nat list"

definition desc_cnt :: nat where "desc_cnt = 8"

definition desc_block_size :: "nat \<Rightarrow> nat" where
  "desc_block_size i = 16 * 2 ^ i"

text \<open>\<^verbatim>\<open>malloc_init\<close>: empty free lists and an empty \<open>page_list\<close>.\<close>

definition malloc_init :: "heap \<Rightarrow> heap" where
  "malloc_init s = s\<lparr>free_list := (\<lambda>i. []), page_list := []\<rparr>"

text \<open>
  Modelled from the spec: the page provider. \<^verbatim>\<open>palloc_get_page\<close> hands out the first
  page of \<open>pool\<close>, or the null pointer, leaving the provider as it is, when there is
  none; \<^verbatim>\<open>palloc_free_page\<close> takes the page back.
\<close>

definition palloc_get_page :: "heap \<Rightarrow> nat \<times> heap" where
  "palloc_get_page s =
     (case pool s of
        [] \<Rightarrow> (NULL, s)
      | p # ps \<Rightarrow> if p = NULL then (NULL, s) else (p, s\<lparr>pool := ps\<rparr>))"

definition palloc_free_page :: "nat \<Rightarrow> heap \<Rightarrow> heap" where
  "palloc_free_page a s = s\<lparr>pool := pool s @ [a]\<rparr>"

definition push_free :: "nat \<Rightarrow> nat \<Rightarrow> heap \<Rightarrow> heap" where
  "push_free i e s = s\<lparr>free_list := (free_list s)(i := free_list s i @ [e])\<rparr>"

definition pop_free :: "nat \<Rightarrow> heap \<Rightarrow> nat \<times> heap" where
  "pop_free i s = (hd (free_list s i), s\<lparr>free_list := (free_list s)(i := tl (free_list s i))\<rparr>)"

text \<open>
  \<^verbatim>\<open>list_remove\<close> of a block: the element leaves the list it is in, whichever
  descriptor owns that list; removing an element that is in no list is undefined.
\<close>

definition remove_free :: "nat \<Rightarrow> heap \<Rightarrow> error + heap" where
  "remove_free e s =
     (if list_ex (\<lambda>i. e \<in> set (free_list s i)) [0..<desc_cnt]
      then Inr (s\<lparr>free_list := (\<lambda>i. if i < desc_cnt then remove1 e (free_list s i)
                                       else free_list s i)\<rparr>)
      else Inl Undefined)"

definition remove_page :: "nat \<Rightarrow> heap \<Rightarrow> error + heap" where
  "remove_page a s =
     (if a \<in> set (page_list s) then Inr (s\<lparr>page_list := remove1 a (page_list s)\<rparr>)
      else Inl Undefined)"

text \<open>\<^verbatim>\<open>block_to_arena\<close>: the page of the block, with its two assertions.\<close>

definition block_to_arena :: "config \<Rightarrow> heap \<Rightarrow> nat \<Rightarrow> error + nat" where
  "block_to_arena c s b =
     (let a = pg_round_down b
      in ASSERT c (a \<noteq> NULL) (ASSERT c (magic (arena_at s a) = ARENA_MAGIC) (Inr a)))"

text \<open>
  The index \<^verbatim>\<open>((void *) b - (void *) a - sizeof (*a)) >> 4\<close> into \<^verbatim>\<open>arr\<close>: a block
  below the payload or beyond the slot map is outside the array.
\<close>

definition slot_of :: "nat \<Rightarrow> nat \<Rightarrow> error + nat" where
  "slot_of a b =
     (if b < a + sizeof_arena then Inl Undefined
      else let i = drop_bit 4 (b - a - sizeof_arena)
           in if i < ARR_LEN then Inr i else Inl Undefined)"

definition set_arr :: "nat \<Rightarrow> nat \<Rightarrow> int \<Rightarrow> heap \<Rightarrow> heap" where
  "set_arr a i v s =
     s\<lparr>arena_at := (arena_at s)(a := (arena_at s a)\<lparr>arr := (arr (arena_at s a))(i := v)\<rparr>)\<rparr>"

text \<open>
  The \<^verbatim>\<open>for\<close> loop of \<^verbatim>\<open>malloc\<close> over the descriptors, from index \<open>d\<close>: either a
  block is popped from the first non-empty list of a large enough class, or, at the last
  descriptor, a page is obtained and its single block goes through \<^verbatim>\<open>descs[7]\<close>.
  The result is the state and \<open>None\<close> when the page provider has no page, else the
  descriptor index, the block and its arena.
\<close>

function malloc_scan ::
  "config \<Rightarrow> heap \<Rightarrow> nat \<Rightarrow> nat \<Rightarrow> error + ((nat \<times> nat \<times> nat) option \<times> heap)" where
  "malloc_scan c s size' d =
     (if d < desc_cnt then
        if desc_block_size d \<ge> size' \<and> free_list s d \<noteq> [] then
          (let (b, s1) = pop_free d s
           in case block_to_arena c s1 b of
                Inl e \<Rightarrow> Inl e
              | Inr a \<Rightarrow> Inr (Some (d, b, a), s1))
        else if d = desc_cnt - 1 then
          (let (a, s1) = palloc_get_page s
           in if a = NULL then Inr (None, s1)
              else
               let s2 = s1\<lparr>page_list := page_list s1 @ [a]\<rparr>;
                   s3 = s2\<lparr>arena_at := (arena_at s2)(a := \<lparr>magic = ARENA_MAGIC, arr = (\<lambda>i. 0)\<rparr>)\<rparr>;
                   s4 = push_free 7 (a + sizeof_arena) s3;
                   (b, s5) = pop_free 7 s4
               in Inr (Some (d, b, a), s5))
        else malloc_scan c s size' (d + 1)
      else Inl Undefined)"
  by pat_completeness auto
termination
  by (relation "measure (\<lambda>(c, s, size', d). desc_cnt - d)") auto

declare malloc_scan.simps [simp del]

text \<open>The \<^verbatim>\<open>while (1)\<close> loop of \<^verbatim>\<open>malloc\<close>: split down, pushing the upper halves.\<close>

function malloc_split :: "heap \<Rightarrow> nat \<Rightarrow> nat \<Rightarrow> nat \<Rightarrow> nat \<times> heap" where
  "malloc_split s size' d b =
     (if desc_block_size d = 16 then (d, s)
      else if desc_block_size d \<ge> 2 * size' then
        malloc_split (push_free (d - 1) (b + desc_block_size (d - 1)) s) size' (d - 1) b
      else (d, s))"
  by pat_completeness auto
termination
  by (relation "measure (\<lambda>(s, size', d, b). d)") (auto simp: desc_block_size_def)

declare malloc_split.simps [simp del]

text \<open>\<^verbatim>\<open>void *malloc (size_t size)\<close>\<close>

definition malloc :: "config \<Rightarrow> heap \<Rightarrow> nat \<Rightarrow> error + (nat \<times> heap)" where
  "malloc c s size' =
     ASSERT c (size' \<le> PGSIZE div 2)
      (if size' = 0 \<or> size' > PGSIZE div 2 then Inr (NULL, s)
       else case malloc_scan c s size' 0 of
              Inl e \<Rightarrow> Inl e
            | Inr (None, s1) \<Rightarrow> Inr (NULL, s1)
            | Inr (Some (d, b, a), s1) \<Rightarrow>
               (let (d', s2) = malloc_split s1 size' d b
                in case slot_of a b of
                     Inl e \<Rightarrow> Inl e
                   | Inr i \<Rightarrow> Inr (b, set_arr a i (int (desc_block_size d')) s2)))"

text \<open>\<^verbatim>\<open>memset\<close> and \<^verbatim>\<open>memcpy\<close> on the payload bytes.\<close>

definition memset :: "nat \<Rightarrow> 8 word \<Rightarrow> nat \<Rightarrow> heap \<Rightarrow> heap" where
  "memset p v n s = s\<lparr>mem := (\<lambda>x. if p \<le> x \<and> x < p + n then v else mem s x)\<rparr>"



text \<open>
  \<^verbatim>\<open>block_size\<close>: the slot map's entry for the block, an \<^verbatim>\<open>int\<close> read as a
  \<^verbatim>\<open>size_t\<close>.
\<close>

definition block_size :: "config \<Rightarrow> heap \<Rightarrow> nat \<Rightarrow> error + nat" where
  "block_size c s b =
     (case block_to_arena c s b of
        Inl e \<Rightarrow> Inl e
      | Inr a \<Rightarrow>
         (case slot_of a b of
            Inl e \<Rightarrow> Inl e
          | Inr i \<Rightarrow> Inr (nat (arr (arena_at s a) i mod 2 ^ 32))))"

text \<open>
  The loop \<^verbatim>\<open>while (b_sz > (1ul << (idx + 4))) ++idx;\<close> of \<^verbatim>\<open>free\<close>: the shift is
  undefined once the count reaches the 32 bits of \<^verbatim>\<open>unsigned long\<close>.
\<close>

function free_idx :: "nat \<Rightarrow> nat \<Rightarrow> error + nat" where
  "free_idx b_sz idx =
     (if \<not> idx + 4 < 32 then Inl Undefined
      else if b_sz > push_bit (idx + 4) 1 then free_idx b_sz (idx + 1)
      else Inr idx)"
  by pat_completeness auto
termination
  by (relation "measure (\<lambda>(b_sz, idx). 32 - idx)") auto

declare free_idx.simps [simp del]

text \<open>
  The inner \<^verbatim>\<open>for\<close> loop of \<^verbatim>\<open>free\<close> over the buddy's slots, from byte \<open>i\<close> of the
  buddy at payload offset \<open>boff\<close>: \<open>True\<close> when it breaks at a non-zero entry (the
  source then sets \<open>i = 1\<close>), \<open>False\<close> when it runs to the end.
\<close>

function buddy_scan :: "(nat \<Rightarrow> int) \<Rightarrow> nat \<Rightarrow> nat \<Rightarrow> nat \<Rightarrow> error + bool" where
  "buddy_scan ar boff b_sz i =
     (if i < b_sz then
        (let j = drop_bit 4 (boff + i)
         in if \<not> j < ARR_LEN then Inl Undefined
            else if ar j \<noteq> 0 then Inr True
            else buddy_scan ar boff b_sz (i + 16))
      else Inr False)"
  by pat_completeness auto
termination
  by (relation "measure (\<lambda>(ar, boff, b_sz, i). b_sz - i)") auto

declare buddy_scan.simps [simp del]

text \<open>
  The \<^verbatim>\<open>while (1)\<close> loop of \<^verbatim>\<open>free\<close>. \<^verbatim>\<open>descs[idx]\<close> is an initialised descriptor
  for \<open>idx < desc_cnt\<close> only; \<^verbatim>\<open>b_sz <<= 1\<close> is taken in \<^verbatim>\<open>size_t\<close>.
\<close>

function coalesce :: "heap \<Rightarrow> nat \<Rightarrow> nat \<Rightarrow> nat \<Rightarrow> nat \<Rightarrow> error + heap" where
  "coalesce s a b b_sz idx =
     (if b_sz = PGSIZE div 2 then
        (case remove_page a s of
           Inl e \<Rightarrow> Inl e
         | Inr s1 \<Rightarrow> Inr (palloc_free_page a s1))
      else if b < a + sizeof_arena then Inl Undefined
      else
       let buddy = ((b - a - sizeof_arena) XOR b_sz) + a + sizeof_arena
       in case buddy_scan (arr (arena_at s a)) (buddy - a - sizeof_arena) b_sz 0 of
            Inl e \<Rightarrow> Inl e
          | Inr True \<Rightarrow>
             if idx < desc_cnt then Inr (push_free idx b s) else Inl Undefined
          | Inr False \<Rightarrow>
             (let nb = (if b < buddy then b else buddy)
              in if idx < desc_cnt then
                   (case remove_free buddy s of
                      Inl e \<Rightarrow> Inl e
                    | Inr s1 \<Rightarrow> coalesce s1 a nb (push_bit 1 b_sz mod 2 ^ 32) (idx + 1))
                 else Inl Undefined))"
  by pat_completeness auto
termination
  by (relation "measure (\<lambda>(s, a, b, b_sz, idx). desc_cnt - idx)") auto

declare coalesce.simps [simp del]

text \<open>
  \<^verbatim>\<open>void free (void *p)\<close>. When assertions are compiled in, the block is first filled
  with \<^verbatim>\<open>0xcc\<close>.
\<close>

definition free :: "config \<Rightarrow> heap \<Rightarrow> nat \<Rightarrow> error + heap" where
  "free c s p =
     (if p = NULL then Inr s
      else case block_to_arena c s p of
             Inl e \<Rightarrow> Inl e
           | Inr a \<Rightarrow>
              (case block_size c s p of
                 Inl e \<Rightarrow> Inl e
               | Inr b_sz \<Rightarrow>
                  (let s1 = (if \<not> NDEBUG c then memset p 0xcc b_sz s else s)
                   in case slot_of a p of
                        Inl e \<Rightarrow> Inl e
                      | Inr i \<Rightarrow>
                         (let s2 = set_arr a i 0 s1
                          in case free_idx b_sz 0 of
                               Inl e \<Rightarrow> Inl e
                             | Inr idx \<Rightarrow> coalesce s2 a p b_sz idx))))"


section \<open>Auxiliary definitions for the statements\<close>

text \<open>A call returns the value \<open>v\<close>: it neither panics nor is undefined.\<close>

definition returns :: "error + (int \<times> 'a) \<Rightarrow> int \<Rightarrow> bool" where
  "returns r v = (case r of Inl e \<Rightarrow> False | Inr (v', s) \<Rightarrow> v' = v)"

text \<open>A build with assertions compiled in and five signals.\<close>

definition config_ex :: config where
  "config_ex = \<lparr>NDEBUG = False, NUM_SIGNAL = 5, SIG_CHLD = 0, SIG_CPU = 1, SIG_UBLOCK = 2,
     SIG_KILL = 4, SIG_DFL = 0, SIG_IGN = 1\<rparr>"

text \<open>Threads that block signal 3 and no other, all children of thread 3.\<close>

definition thread_ex :: "nat \<Rightarrow> thread" where
  "thread_ex p = \<lparr>tid = int p, ptid = 3, status = THREAD_BLOCKED, mask_sig = 8,
     signals = (\<lambda>i. \<lparr>type_sig = - 1, sent_by = 0\<rparr>), signals_queue = []\<rparr>"

text \<open>A kernel state with interrupts on, thread 3 running and threads 3 to 5 known.\<close>

definition kstate_ex :: kstate where
  "kstate_ex = \<lparr>intr = INTR_ON, running = 3, thr = thread_ex,
     thread_lookup = (\<lambda>t. if 3 \<le> t \<and> t \<le> 5 then Some (nat t) else None),
     to_unblock_list = [], sigset_mem = (\<lambda>p. 0)\<rparr>"


text \<open>
  The send passes every check that \<^verbatim>\<open>kill\<close> makes before it looks at the pending
  slot: the signal and the target are not reserved, the assertion holds, the target
  exists, the signal is not blocked, it is not \<^verbatim>\<open>SIG_UBLOCK\<close>, a \<^verbatim>\<open>SIG_KILL\<close> comes
  from the parent, and the signal indexes \<^verbatim>\<open>signals\<close>.
\<close>

definition kill_accepted :: "config \<Rightarrow> kstate \<Rightarrow> int \<Rightarrow> int \<Rightarrow> nat \<Rightarrow> bool" where
  "kill_accepted c s tid' sig x \<longleftrightarrow>
     sig \<noteq> SIG_CHLD c \<and> sig \<noteq> SIG_CPU c \<and> 2 < tid' \<and>
     (NDEBUG c \<or> intr s = INTR_ON) \<and>
     thread_lookup s tid' = Some x \<and>
     0 \<le> sig \<and> sig < int (NUM_SIGNAL c) \<and>
     (sig = SIG_KILL c \<or> shift_ok sig \<and> \<not> bit (mask_sig (thr s x)) (nat sig)) \<and>
     sig \<noteq> SIG_UBLOCK c \<and>
     (sig \<noteq> SIG_KILL c \<or> ptid (thr s x) = tid (thr s (running s)))"


subsection \<open>Allocator states and the words of the spec\<close>

text \<open>Memory before \<^verbatim>\<open>malloc_init\<close>, with two pages in the page provider; every byte
  of the payload holds the low byte of its address.\<close>

definition heap_raw :: heap where
  "heap_raw = \<lparr>free_list = (\<lambda>i. []), page_list = [],
     arena_at = (\<lambda>a. \<lparr>magic = 0, arr = (\<lambda>i. 0)\<rparr>), mem = (\<lambda>x. of_nat x),
     pool = [8192, 12288]\<rparr>"

text \<open>The fresh allocator over that memory.\<close>

definition heap_ex :: heap where
  "heap_ex = malloc_init heap_raw"




text \<open>The words of the spec for the buddy check: some entry of the slot map in the buddy's
  slot range, the bytes \<open>[boff, boff + d)\<close> of the payload, is non-zero.\<close>

definition buddy_in_use :: "heap \<Rightarrow> nat \<Rightarrow> nat \<Rightarrow> nat \<Rightarrow> bool" where
  "buddy_in_use s a boff d \<longleftrightarrow>
     list_ex (\<lambda>x. arr (arena_at s a) x \<noteq> 0) [boff div 16..<(boff + d) div 16]"

text \<open>The arena leaves the arena list and its page goes back to the page provider.\<close>

definition release_arena :: "nat \<Rightarrow> heap \<Rightarrow> heap" where
  "release_arena a s = s\<lparr>page_list := remove1 a (page_list s), pool := pool s @ [a]\<rparr>"

text \<open>The block leaves the free list of class \<open>j\<close>.\<close>

definition unlink_free :: "nat \<Rightarrow> nat \<Rightarrow> heap \<Rightarrow> heap" where
  "unlink_free j e s = s\<lparr>free_list := (free_list s)(j := remove1 e (free_list s j))\<rparr>"

subsection \<open>The invariant of the allocator\<close>

text \<open>
  A block is a payload offset and a class. The block at \<open>off\<close> of class \<open>k\<close> covers the
  payload bytes \<open>off\<close> to \<open>off + desc_block_size k - 1\<close>.
\<close>

definition covers :: "nat \<Rightarrow> nat \<Rightarrow> nat \<Rightarrow> bool" where
  "covers off k x \<longleftrightarrow> off \<le> x \<and> x < off + desc_block_size k"

text \<open>
  A set of blocks tiles the payload of an arena: every block has a class of the allocator,
  starts at a multiple of its size and ends inside the payload, and every payload byte
  is covered by exactly one block.
\<close>

definition tiled :: "(nat \<times> nat) set \<Rightarrow> bool" where
  "tiled B \<longleftrightarrow>
     (\<forall>(off, k) \<in> B. k < desc_cnt \<and> desc_block_size k dvd off \<and>
                       off + desc_block_size k \<le> PGSIZE div 2) \<and>
     (\<forall>x < PGSIZE div 2. \<exists>off k. (off, k) \<in> B \<and> covers off k x) \<and>
     (\<forall>off k off' k' x. (off, k) \<in> B \<and> (off', k') \<in> B \<and> covers off k x \<and> covers off' k' x \<longrightarrow>
        off = off' \<and> k = k')"

text \<open>
  The block at \<open>off\<close> of class \<open>k\<close> in arena \<open>a\<close> is free when its address is on the free
  list of class \<open>k\<close>, and live when the slot-map entry of its first slot is its size.
\<close>

definition free_at :: "heap \<Rightarrow> nat \<Rightarrow> nat \<Rightarrow> nat \<Rightarrow> bool" where
  "free_at s a off k \<longleftrightarrow>
     k < desc_cnt \<and> off < PGSIZE div 2 \<and> a + sizeof_arena + off \<in> set (free_list s k)"

definition live_at :: "heap \<Rightarrow> nat \<Rightarrow> nat \<Rightarrow> nat \<Rightarrow> bool" where
  "live_at s a off k \<longleftrightarrow>
     k < desc_cnt \<and> 16 dvd off \<and> off < PGSIZE div 2 \<and>
     arr (arena_at s a) (off div 16) = int (desc_block_size k)"

text \<open>
  The blocks of arena \<open>a\<close>: the free ones, the live ones, and the block \<open>h\<close> that a call
  of \<^verbatim>\<open>malloc\<close> or \<^verbatim>\<open>free\<close> is working on, which is on no list and has no entry (\<open>None\<close>
  between calls).
\<close>

definition blocks :: "heap \<Rightarrow> (nat \<times> nat \<times> nat) option \<Rightarrow> nat \<Rightarrow> (nat \<times> nat) set" where
  "blocks s h a = {(off, k). free_at s a off k \<or> live_at s a off k \<or> h = Some (a, off, k)}"

text \<open>
  The pages of the arena list and of the provider are distinct, non-null and aligned, and
  every arena of the arena list has its magic number.
\<close>

definition pages_ok :: "heap \<Rightarrow> bool" where
  "pages_ok s \<longleftrightarrow>
     distinct (page_list s @ pool s) \<and>
     (\<forall>a \<in> set (page_list s @ pool s). a \<noteq> NULL \<and> a mod PGSIZE = 0) \<and>
     (\<forall>a \<in> set (page_list s). magic (arena_at s a) = ARENA_MAGIC)"

text \<open>A free list holds no block twice, and holds payload addresses of listed arenas only.\<close>

definition lists_ok :: "heap \<Rightarrow> bool" where
  "lists_ok s \<longleftrightarrow>
     (\<forall>k<desc_cnt. distinct (free_list s k) \<and>
        (\<forall>b \<in> set (free_list s k).
           \<exists>a \<in> set (page_list s). \<exists>off<PGSIZE div 2. b = a + sizeof_arena + off))"

text \<open>
  An arena is in order when its blocks tile its payload, its slot-map entries are 0 or
  the size of a class, the first entry of a free block is 0, and no free block has a free
  buddy of its own class (two free buddies are always merged).
\<close>

definition arena_ok :: "heap \<Rightarrow> (nat \<times> nat \<times> nat) option \<Rightarrow> nat \<Rightarrow> bool" where
  "arena_ok s h a \<longleftrightarrow>
     tiled (blocks s h a) \<and>
     (\<forall>j<ARR_LEN. arr (arena_at s a) j = 0 \<or>
        (\<exists>k<desc_cnt. arr (arena_at s a) j = int (desc_block_size k))) \<and>
     (\<forall>off k. free_at s a off k \<longrightarrow>
        arr (arena_at s a) (off div 16) = 0 \<and> \<not> free_at s a (off XOR desc_block_size k) k)"

text \<open>The block in work belongs to a listed arena, has entry 0 and is on no free list.\<close>

definition hole_ok :: "heap \<Rightarrow> (nat \<times> nat \<times> nat) option \<Rightarrow> bool" where
  "hole_ok s h \<longleftrightarrow>
     (case h of
        None \<Rightarrow> True
      | Some (a, off, k) \<Rightarrow>
          a \<in> set (page_list s) \<and> arr (arena_at s a) (off div 16) = 0 \<and> \<not> free_at s a off k)"

text \<open>
  The invariant of the allocator, with the block in work \<open>h\<close>: between the calls of
  \<^verbatim>\<open>malloc\<close> and \<^verbatim>\<open>free\<close> it holds with \<open>None\<close>.
\<close>

definition heap_inv :: "heap \<Rightarrow> (nat \<times> nat \<times> nat) option \<Rightarrow> bool" where
  "heap_inv s h \<longleftrightarrow>
     pages_ok s \<and> lists_ok s \<and> (\<forall>a \<in> set (page_list s). arena_ok s h a) \<and> hole_ok s h"

text \<open>
  Modelled from the spec: the coalesce loop of \<^verbatim>\<open>free\<close> in the words of the specification,
  for the block at payload offset \<open>off\<close> of class \<open>idx\<close> in arena \<open>a\<close>, with
  \<open>d = 16 * 2 ^ idx\<close>. At \<open>d = PGSIZE / 2\<close> (no class is larger, so the test is written
  \<open>\<le>\<close> and the loop is total) the arena is released. Otherwise the buddy is at
  \<open>off XOR d\<close>; if an entry of the slot map in the buddy's range is non-zero the block
  is pushed on the free list of class \<open>idx\<close>; else the buddy is unlinked from that list
  and the loop goes on with the lower offset and the next class.
\<close>

function coalesce_spec :: "heap \<Rightarrow> nat \<Rightarrow> nat \<Rightarrow> nat \<Rightarrow> heap" where
  "coalesce_spec s a off idx =
     (if PGSIZE div 2 \<le> desc_block_size idx then release_arena a s
      else
       let d = desc_block_size idx;
           boff = off XOR d
       in if buddy_in_use s a boff d then push_free idx (a + sizeof_arena + off) s
          else coalesce_spec (unlink_free idx (a + sizeof_arena + boff) s) a (min off boff) (idx + 1))"
  by pat_completeness auto
termination
proof (relation "measure (\<lambda>(s, a, off, idx). desc_cnt - idx)")
  show "wf (measure (\<lambda>(s, a, off, idx). desc_cnt - idx))" by simp
next
  fix s :: heap and a off idx x xa :: nat
  assume "\<not> PGSIZE div 2 \<le> desc_block_size idx"
  then have "desc_block_size idx < desc_block_size 7"
    by (simp add: PGSIZE_def PGBITS_def desc_block_size_def)
  then have "(2::nat) ^ idx < 2 ^ 7" by (simp add: desc_block_size_def)
  then have "idx < 7" by (simp only: power_strict_increasing_iff)
  then show "((unlink_free idx (a + sizeof_arena + xa) s, a, min off xa, idx + 1), s, a, off, idx)
       \<in> measure (\<lambda>(s, a, off, idx). desc_cnt - idx)"
    by (simp add: desc_cnt_def)
qed

declare coalesce_spec.simps [simp del]

section \<open>Properties of the signal calls\<close>

lemma word_less_2p_iff_mask:
  fixes w :: "32 word"
  assumes "n < 32"
  shows "w < 2 ^ n \<longleftrightarrow> w AND mask n = w"
proof
  assume "w < 2 ^ n" then show "w AND mask n = w" by (rule less_mask_eq)
next
  assume "w AND mask n = w"
  moreover have "w AND mask n < 2 ^ n"
    using assms by (simp add: and_mask_less_size word_size)
  ultimately show "w < 2 ^ n" by simp
qed

lemma word_less_2p_iff_bits:
  fixes w :: "32 word"
  assumes "n < 32"
  shows "w < 2 ^ n \<longleftrightarrow> (\<forall>k. bit w k \<longrightarrow> k < n)"
  unfolding word_less_2p_iff_mask [OF assms]
proof
  assume eq: "w AND mask n = w"
  show "\<forall>k. bit w k \<longrightarrow> k < n"
  proof (intro allI impI)
    fix k
    assume "bit w k"
    then have "bit (w AND mask n) k" using eq by simp
    then show "k < n" by (simp add: bit_simps)
  qed
next
  assume h: "\<forall>k. bit w k \<longrightarrow> k < n"
  show "w AND mask n = w"
    by (rule bit_eqI) (use h in \<open>auto simp: bit_simps\<close>)
qed


lemma bit_xor_push_bit:
  fixes m :: "32 word"
  assumes "n < 32"
  shows "bit (m XOR push_bit n 1) k \<longleftrightarrow> (if k = n then \<not> bit m k else bit m k)"
  using assms by (auto simp: bit_simps dest: bit_imp_le_length)

lemma slot_both_updates:
  "(v :: signal_slot)\<lparr>type_sig := a, sent_by := b\<rparr> = \<lparr>type_sig = a, sent_by = b\<rparr>"
  by (cases v) simp

lemma intr_set_level_self: "intr_set_level (intr s) (s\<lparr>intr := l\<rparr>) = s"
  by (simp add: intr_set_level_def)

lemma intr_set_level_set_slot:
  "intr_set_level l (set_slot x i v s) = set_slot x i v (intr_set_level l s)"
  by (simp add: intr_set_level_def set_slot_def)

lemma intr_set_level_queue_push_back:
  "intr_set_level l (queue_push_back x i s) = queue_push_back x i (intr_set_level l s)"
  by (simp add: intr_set_level_def queue_push_back_def)

lemma intr_set_level_unblock:
  "intr_set_level l (s\<lparr>to_unblock_list := u\<rparr>) = (intr_set_level l s)\<lparr>to_unblock_list := u\<rparr>"
  by (simp add: intr_set_level_def)

lemma thr_set_slot:
  "thr (set_slot x i v s) = (thr s)(x := (thr s x)\<lparr>signals := (signals (thr s x))(i := v)\<rparr>)"
  by (simp add: set_slot_def)

lemma running_set_slot: "running (set_slot x i v s) = running s"
  by (simp add: set_slot_def)

lemma set_slot_twice: "set_slot x i v (set_slot x i w s) = set_slot x i v s"
  by (simp add: set_slot_def)

lemma kill_rejected:
  assumes "sig = SIG_CHLD c \<or> sig = SIG_CPU c \<or> tid' \<le> 2"
  shows "kill c s tid' sig = Inr (- 1, s)"
  using assms by (auto simp: kill_def)

lemma kill_unknown:
  assumes "\<not> (sig = SIG_CHLD c \<or> sig = SIG_CPU c \<or> tid' \<le> 2)"
    and "NDEBUG c \<or> intr s = INTR_ON" and "thread_lookup s tid' = None"
  shows "kill c s tid' sig = Inr (- 1, s)"
  using assms by (auto simp: kill_def ASSERT_def intr_disable_def intr_set_level_self)

lemma kill_found:
  assumes "\<not> (sig = SIG_CHLD c \<or> sig = SIG_CPU c \<or> tid' \<le> 2)"
    and "NDEBUG c \<or> intr s = INTR_ON" and "thread_lookup s tid' = Some x"
  shows "kill c s tid' sig =
     (if sig \<noteq> SIG_KILL c \<and> \<not> shift_ok sig then Inl Undefined
      else if sig \<noteq> SIG_KILL c \<and> bit (mask_sig (thr s x)) (nat sig) then Inr (0, s)
      else if sig = SIG_UBLOCK c then
        Inr (0, if status (thr s x) = THREAD_BLOCKED
                then s\<lparr>to_unblock_list := to_unblock_list s @ [x]\<rparr> else s)
      else if sig = SIG_KILL c \<and> ptid (thr s x) \<noteq> tid (thr s (running s)) then Inr (- 1, s)
      else if \<not> (0 \<le> sig \<and> sig < int (NUM_SIGNAL c)) then Inl Undefined
      else if type_sig (signals (thr s x) (nat sig)) \<noteq> - 1 then
        Inr (0, set_slot x (nat sig)
                  ((signals (thr s x) (nat sig))\<lparr>sent_by := tid (thr s (running s))\<rparr>) s)
      else Inr (0, queue_push_back x (nat sig)
                     (set_slot x (nat sig)
                        \<lparr>type_sig = sig, sent_by = tid (thr s (running s))\<rparr> s)))"
proof -
  have pass: "ASSERT c (intr s = INTR_ON) k = k" for k :: "error + (int \<times> kstate)"
    using assms(2) by (auto simp: ASSERT_def)
  have first: "\<not> (sig = SIG_CHLD c \<or> sig = SIG_CPU c \<or> tid' \<le> 2)"
    by (rule assms(1))
  show ?thesis
    unfolding kill_def pass intr_disable_def
    using first assms(3)
    by (simp add: Let_def intr_set_level_self intr_set_level_set_slot
        intr_set_level_queue_push_back intr_set_level_unblock thr_set_slot running_set_slot
        set_slot_twice slot_both_updates)
qed

lemma intr_set_level_set_mask:
  "intr_set_level l (set_mask t m s) = set_mask t m (intr_set_level l s)"
  by (simp add: intr_set_level_def set_mask_def)

lemma intr_set_level_sigset_mem:
  "intr_set_level l (s\<lparr>sigset_mem := u\<rparr>) = (intr_set_level l s)\<lparr>sigset_mem := u\<rparr>"
  by (simp add: intr_set_level_def)

lemma Signal_eq:
  assumes "signum \<noteq> SIG_KILL c" and "NDEBUG c \<or> intr s = INTR_ON" and "shift_ok signum"
  shows "Signal c s signum handler =
     (let m = mask_sig (thr s (running s));
          old_handler = (if bit m (nat signum) then SIG_IGN c else SIG_DFL c)
      in Inr (old_handler,
              if old_handler \<noteq> handler
              then set_mask (running s) (m XOR push_bit (nat signum) 1) s else s))"
proof -
  have pass: "ASSERT c (intr s = INTR_ON) k = k" for k :: "error + (int \<times> kstate)"
    using assms(2) by (auto simp: ASSERT_def)
  show ?thesis
    unfolding Signal_def pass intr_disable_def
    using assms(1,3)
    by (simp add: Let_def intr_set_level_self intr_set_level_set_mask)
qed

lemma sigprocmask_eq:
  assumes "NUM_SIGNAL c < 32" and "NDEBUG c \<or> intr s = INTR_ON"
    and "set' = NULL \<or> sigset_mem s set' < 2 ^ NUM_SIGNAL c"
  shows "sigprocmask c s how set' oldset =
     (let m = mask_sig (thr s (running s));
          s2 = (if oldset \<noteq> NULL then s\<lparr>sigset_mem := (sigset_mem s)(oldset := m)\<rparr> else s);
          v = sigset_mem s2 set'
      in if set' = NULL then Inr (0, s2)
         else if how = SIG_BLOCK then Inr (0, set_mask (running s) (m OR v) s2)
         else if how = SIG_UNBLOCK then
           Inr (0, set_mask (running s) (m AND (mask (NUM_SIGNAL c) XOR v)) s2)
         else if how = SIG_SETMASK then Inr (0, set_mask (running s) v s2)
         else Inr (- 1, s2))"
proof -
  have pass: "ASSERT c (intr s = INTR_ON) k = k" for k :: "error + (int \<times> kstate)"
    using assms(2) by (auto simp: ASSERT_def)
  have m: "(push_bit (NUM_SIGNAL c) 1 - 1 :: 32 word) = mask (NUM_SIGNAL c)"
    by (simp add: mask_eq_decr_exp)
  have lt: "set' \<noteq> NULL \<Longrightarrow> \<not> push_bit (NUM_SIGNAL c) 1 \<le> sigset_mem s set'"
    using assms(3) by (simp add: not_le)
  show ?thesis
    unfolding sigprocmask_def pass intr_disable_def m
    using assms(1) lt
    by (simp add: Let_def intr_set_level_def set_mask_def)
qed

lemma sigprocmask_bad_set:
  assumes "NUM_SIGNAL c < 32" and "set' \<noteq> NULL" and "2 ^ NUM_SIGNAL c \<le> sigset_mem s set'"
  shows "sigprocmask c s how set' oldset = Inr (- 1, s)"
  using assms by (simp add: sigprocmask_def)

lemma mask_sig_set_mask: "mask_sig (thr (set_mask t m s) t) = m"
  by (simp add: set_mask_def)

lemma running_set_mask: "running (set_mask t m s) = running s"
  by (simp add: set_mask_def)

lemma intr_set_mask: "intr (set_mask t m s) = intr s"
  by (simp add: set_mask_def)

lemma sigprocmask_keeps_range:
  assumes n: "NUM_SIGNAL c < 32"
    and m: "mask_sig (thr s (running s)) < 2 ^ NUM_SIGNAL c"
    and r: "sigprocmask c s how set' oldset = Inr (r, s')"
  shows "mask_sig (thr s' (running s')) < 2 ^ NUM_SIGNAL c"
proof (cases "set' \<noteq> NULL \<and> 2 ^ NUM_SIGNAL c \<le> sigset_mem s set'")
  case True
  then have "sigprocmask c s how set' oldset = Inr (- 1, s)"
    using n by (simp add: sigprocmask_bad_set)
  with r m show ?thesis by simp
next
  case False
  then have ok: "set' = NULL \<or> sigset_mem s set' < 2 ^ NUM_SIGNAL c"
    by (auto simp: not_le)
  have i: "NDEBUG c \<or> intr s = INTR_ON"
    using r False n
    by (auto simp: sigprocmask_def ASSERT_def not_le split: if_splits)
  define m where "m = mask_sig (thr s (running s))"
  define s2 where "s2 = (if oldset \<noteq> NULL then s\<lparr>sigset_mem := (sigset_mem s)(oldset := m)\<rparr> else s)"
  define v where "v = sigset_mem s2 set'"
  have run2: "running s2 = running s" and thr2: "thr s2 = thr s"
    by (simp_all add: s2_def)
  have v: "set' \<noteq> NULL \<Longrightarrow> v < 2 ^ NUM_SIGNAL c"
    using ok m by (auto simp: v_def s2_def m_def)
  have bits: "\<And>w :: 32 word. w < 2 ^ NUM_SIGNAL c \<longleftrightarrow> (\<forall>k. bit w k \<longrightarrow> k < NUM_SIGNAL c)"
    by (rule word_less_2p_iff_bits [OF n])
  have m': "m < 2 ^ NUM_SIGNAL c" using m by (simp add: m_def)
  have or: "set' \<noteq> NULL \<Longrightarrow> m OR v < 2 ^ NUM_SIGNAL c"
    using v m' unfolding bits by (auto simp: bit_simps)
  have "and": "m AND (mask (NUM_SIGNAL c) XOR v) < 2 ^ NUM_SIGNAL c"
    using m' unfolding bits by (auto simp: bit_simps)
  have eq: "sigprocmask c s how set' oldset =
     (if set' = NULL then Inr (0, s2)
         else if how = SIG_BLOCK then Inr (0, set_mask (running s) (m OR v) s2)
         else if how = SIG_UNBLOCK then
           Inr (0, set_mask (running s) (m AND (mask (NUM_SIGNAL c) XOR v)) s2)
         else if how = SIG_SETMASK then Inr (0, set_mask (running s) v s2)
         else Inr (- 1, s2))"
    using sigprocmask_eq [OF n i ok, of how oldset]
    by (simp add: Let_def m_def s2_def v_def)
  have s2m: "mask_sig (thr s2 (running s2)) = m"
    by (simp add: run2 thr2 m_def)
  consider (rep) "s' = s2"
    | (blk) "set' \<noteq> NULL" "s' = set_mask (running s) (m OR v) s2"
    | (unb) "s' = set_mask (running s) (m AND (mask (NUM_SIGNAL c) XOR v)) s2"
    | (set) "set' \<noteq> NULL" "s' = set_mask (running s) v s2"
    using r unfolding eq by (auto split: if_splits)
  then show ?thesis
  proof cases
    case rep
    then show ?thesis using s2m m' by simp
  next
    case blk
    then show ?thesis using or by (simp add: mask_sig_set_mask running_set_mask run2)
  next
    case unb
    then show ?thesis using "and" by (simp add: mask_sig_set_mask running_set_mask run2)
  next
    case set
    then show ?thesis using v by (simp add: mask_sig_set_mask running_set_mask run2)
  qed
qed

lemma wf_config_ex: "wf_config config_ex"
  by (simp add: wf_config_def config_ex_def)

lemma intr_kstate_ex: "NDEBUG config_ex \<or> intr kstate_ex = INTR_ON"
  by (simp add: kstate_ex_def)

subsection \<open>Sending a signal\<close>

text \<open>
  Claim C6. An accepted send whose pending slot is occupied (\<open>type_sig \<noteq> -1\<close>) returns 0,
  overwrites only the sender of that slot with the caller's tid and leaves every
  \<open>signals_queue\<close> as it is, so that sending again while the signal is pending never
  lengthens the queue; with an empty slot it returns 0, fills the slot with the signal
  and the caller's tid and appends the slot's link at the end of the target's queue.
  Either way the slot is occupied afterwards. Accepted means \<open>kill_accepted\<close>: the
  send gets as far as the pending slot.
\<close>


theorem kill_coalesces:
  assumes "kill_accepted c s tid' sig x"
  shows "\<exists>s'. kill c s tid' sig = Inr (0, s') \<and>
           s' = (if type_sig (signals (thr s x) (nat sig)) \<noteq> - 1
                 then set_slot x (nat sig)
                        ((signals (thr s x) (nat sig))\<lparr>sent_by := tid (thr s (running s))\<rparr>) s
                 else queue_push_back x (nat sig)
                        (set_slot x (nat sig)
                           \<lparr>type_sig = sig, sent_by = tid (thr s (running s))\<rparr> s)) \<and>
           (type_sig (signals (thr s x) (nat sig)) \<noteq> - 1 \<longrightarrow>
              (\<forall>y. signals_queue (thr s' y) = signals_queue (thr s y)) \<and>
              type_sig (signals (thr s' x) (nat sig)) = type_sig (signals (thr s x) (nat sig)) \<and>
              sent_by (signals (thr s' x) (nat sig)) = tid (thr s (running s))) \<and>
           (type_sig (signals (thr s x) (nat sig)) = - 1 \<longrightarrow>
              signals_queue (thr s' x) = signals_queue (thr s x) @ [nat sig] \<and>
              signals (thr s' x) (nat sig) =
                \<lparr>type_sig = sig, sent_by = tid (thr s (running s))\<rparr>) \<and>
           type_sig (signals (thr s' x) (nat sig)) \<noteq> - 1"
proof -
  have acc: "\<not> (sig = SIG_CHLD c \<or> sig = SIG_CPU c \<or> tid' \<le> 2)"
    "NDEBUG c \<or> intr s = INTR_ON" "thread_lookup s tid' = Some x"
    using assms by (auto simp: kill_accepted_def)
  have rest: "0 \<le> sig" "sig < int (NUM_SIGNAL c)"
    "sig = SIG_KILL c \<or> shift_ok sig \<and> \<not> bit (mask_sig (thr s x)) (nat sig)"
    "sig \<noteq> SIG_UBLOCK c"
    "sig \<noteq> SIG_KILL c \<or> ptid (thr s x) = tid (thr s (running s))"
    using assms by (auto simp: kill_accepted_def)
  have k: "kill c s tid' sig =
           Inr (0, if type_sig (signals (thr s x) (nat sig)) \<noteq> - 1
                   then set_slot x (nat sig)
                          ((signals (thr s x) (nat sig))\<lparr>sent_by := tid (thr s (running s))\<rparr>) s
                   else queue_push_back x (nat sig)
                          (set_slot x (nat sig)
                             \<lparr>type_sig = sig, sent_by = tid (thr s (running s))\<rparr> s))"
    unfolding kill_found [OF acc] using rest by auto
  show ?thesis
    unfolding k using rest(1) by (simp add: set_slot_def queue_push_back_def)
qed

theorem kill_coalesces_witness:
  "kill config_ex (kstate_ex\<lparr>intr := INTR_ON\<rparr>) 4 4 =
     Inr (0, queue_push_back 4 4 (set_slot 4 4 \<lparr>type_sig = 4, sent_by = 3\<rparr> kstate_ex))"
proof -
  have a: "kill_accepted config_ex (kstate_ex\<lparr>intr := INTR_ON\<rparr>) 4 4 4"
    by (simp add: kill_accepted_def config_ex_def kstate_ex_def thread_ex_def)
  show ?thesis
    using kill_coalesces [OF a]
    by (simp add: kstate_ex_def thread_ex_def set_slot_def queue_push_back_def)
qed

text \<open>
  Claim C7. Called with interrupts on (or with assertions compiled out), \<^verbatim>\<open>kill\<close>
  returns -1 exactly when the signal is \<^verbatim>\<open>SIG_CHLD\<close> or \<^verbatim>\<open>SIG_CPU\<close>, or the tid is at
  most 2, or the lookup of the tid fails, or the signal is \<^verbatim>\<open>SIG_KILL\<close> and the caller is
  not the target's parent. A send that is not rejected, of a signal other than
  \<^verbatim>\<open>SIG_KILL\<close> whose bit is set in the target's mask, returns 0 and leaves the whole
  state as it was: the signal is not queued.
\<close>


theorem kill_rejects:
  assumes "wf_config c" and "NDEBUG c \<or> intr s = INTR_ON"
  shows "(returns (kill c s tid' sig) (- 1) \<longleftrightarrow>
            sig = SIG_CHLD c \<or> sig = SIG_CPU c \<or> tid' \<le> 2 \<or> thread_lookup s tid' = None \<or>
            (sig = SIG_KILL c \<and>
             (\<exists>x. thread_lookup s tid' = Some x \<and> ptid (thr s x) \<noteq> tid (thr s (running s))))) \<and>
         (sig \<noteq> SIG_CHLD c \<and> sig \<noteq> SIG_CPU c \<and> 2 < tid' \<and> sig \<noteq> SIG_KILL c \<and>
          (\<exists>x. thread_lookup s tid' = Some x \<and> shift_ok sig \<and>
               bit (mask_sig (thr s x)) (nat sig)) \<longrightarrow>
            kill c s tid' sig = Inr (0, s))"
proof (cases "sig = SIG_CHLD c \<or> sig = SIG_CPU c \<or> tid' \<le> 2")
  case True
  then show ?thesis
    by (auto simp: kill_rejected returns_def)
next
  case first: False
  show ?thesis
  proof (cases "thread_lookup s tid'")
    case None
    then show ?thesis
      using first by (simp add: kill_unknown [OF first assms(2)] returns_def)
  next
    case (Some x)
    have d: "SIG_KILL c \<noteq> SIG_UBLOCK c"
      using assms(1) by (auto simp: wf_config_def)
    show ?thesis
      unfolding kill_found [OF first assms(2) Some]
      using first Some d by (auto simp: returns_def)
  qed
qed

theorem kill_rejects_witness:
  "returns (kill config_ex kstate_ex 5 0) (- 1) \<and> kill config_ex kstate_ex 5 3 = Inr (0, kstate_ex)"
  using kill_rejects [OF wf_config_ex intr_kstate_ex, of 5 0]
    kill_rejects [OF wf_config_ex intr_kstate_ex, of 5 3]
  by (simp add: config_ex_def kstate_ex_def thread_ex_def shift_ok_def)




subsection \<open>Masks and handlers\<close>




text \<open>
  Against claim C9 as stated: for a signal number of 32 or more (or a negative one) there
  is no such bit in the 32-bit mask, and the shifts of \<^verbatim>\<open>Signal\<close> are undefined.
\<close>

theorem Signal_shift_count_undefined:
  "Signal config_ex kstate_ex 32 (SIG_IGN config_ex) = Inl Undefined"
  by (simp add: Signal_def config_ex_def kstate_ex_def ASSERT_def intr_disable_def shift_ok_def)

text \<open>
  Claim C9, amended. \<^verbatim>\<open>Signal\<close> validates no range: for every signal number from 0 up to
  31 other than \<^verbatim>\<open>SIG_KILL\<close>, also from \<^verbatim>\<open>NUM_SIGNAL\<close> on, it returns the choice that
  bit \<open>signum\<close> of the mask encodes and toggles that bit, and no other, when the handler
  differs from it. Setting a bit at or above \<^verbatim>\<open>NUM_SIGNAL\<close> this way breaks
  \<open>mask < 2 ^ NUM_SIGNAL\<close>, which every \<^verbatim>\<open>sigprocmask\<close> call that returns preserves;
  saving that mask with \<^verbatim>\<open>sigprocmask\<close> then succeeds, and restoring the saved mask
  with \<^verbatim>\<open>SIG_SETMASK\<close> is rejected with -1.
\<close>

theorem Signal_unvalidated:
  assumes "NUM_SIGNAL c < 32" and "NDEBUG c \<or> intr s = INTR_ON"
    and "signum \<noteq> SIG_KILL c" and "0 \<le> signum" and "signum < 32"
  shows "let m = mask_sig (thr s (running s));
             old_handler = (if bit m (nat signum) then SIG_IGN c else SIG_DFL c);
             m' = m XOR push_bit (nat signum) 1;
             s1 = set_mask (running s) m' s
         in Signal c s signum handler = Inr (old_handler, if handler \<noteq> old_handler then s1 else s) \<and>
            (\<forall>k. bit m' k \<longleftrightarrow> (if k = nat signum then \<not> bit m k else bit m k)) \<and>
            (int (NUM_SIGNAL c) \<le> signum \<and> \<not> bit m (nat signum) \<longrightarrow>
               \<not> mask_sig (thr s1 (running s1)) < 2 ^ NUM_SIGNAL c \<and>
               (\<forall>how p q. p \<noteq> NULL \<longrightarrow>
                  (\<exists>s2. sigprocmask c s1 how NULL p = Inr (0, s2) \<and> sigset_mem s2 p = m' \<and>
                        sigprocmask c s2 SIG_SETMASK p q = Inr (- 1, s2)))) \<and>
            (\<forall>how set' oldset r s'.
               m < 2 ^ NUM_SIGNAL c \<and> sigprocmask c s how set' oldset = Inr (r, s') \<longrightarrow>
               mask_sig (thr s' (running s')) < 2 ^ NUM_SIGNAL c)"
proof -
  define m where "m = mask_sig (thr s (running s))"
  define m' where "m' = m XOR push_bit (nat signum) 1"
  define s1 where "s1 = set_mask (running s) m' s"
  have sh: "shift_ok signum" using assms(4,5) by (simp add: shift_ok_def)
  have n: "nat signum < 32" using assms(4,5) by simp
  have bits: "bit m' k \<longleftrightarrow> (if k = nat signum then \<not> bit m k else bit m k)" for k
    unfolding m'_def by (rule bit_xor_push_bit [OF n])
  have broken: "\<not> m' < 2 ^ NUM_SIGNAL c" if "int (NUM_SIGNAL c) \<le> signum" "\<not> bit m (nat signum)"
  proof
    assume "m' < 2 ^ NUM_SIGNAL c"
    moreover have "bit m' (nat signum)" using that(2) by (simp add: bits)
    ultimately have "nat signum < NUM_SIGNAL c"
      unfolding word_less_2p_iff_bits [OF assms(1)] by blast
    with that(1) show False by simp
  qed
  have s1: "mask_sig (thr s1 (running s1)) = m'" "NDEBUG c \<or> intr s1 = INTR_ON"
    using assms(2) by (simp_all add: s1_def set_mask_def)
  have restore: "\<exists>s2. sigprocmask c s1 how NULL p = Inr (0, s2) \<and> sigset_mem s2 p = m' \<and>
                      sigprocmask c s2 SIG_SETMASK p q = Inr (- 1, s2)"
    if "\<not> m' < 2 ^ NUM_SIGNAL c" "p \<noteq> NULL" for how p q
  proof -
    define s2 where "s2 = s1\<lparr>sigset_mem := (sigset_mem s1)(p := m')\<rparr>"
    have "sigprocmask c s1 how NULL p = Inr (0, s2)"
      using sigprocmask_eq [OF assms(1) s1(2), of NULL how p] that(2) s1(1)
      by (simp add: Let_def s2_def)
    moreover have "sigset_mem s2 p = m'" by (simp add: s2_def)
    moreover have "sigprocmask c s2 SIG_SETMASK p q = Inr (- 1, s2)"
      using that by (intro sigprocmask_bad_set [OF assms(1)]) (simp_all add: s2_def not_less)
    ultimately show ?thesis by blast
  qed
  have sig: "Signal c s signum handler =
      Inr (if bit m (nat signum) then SIG_IGN c else SIG_DFL c,
           if handler \<noteq> (if bit m (nat signum) then SIG_IGN c else SIG_DFL c) then s1 else s)"
    using Signal_eq [OF assms(3,2) sh, of handler]
    by (auto simp: Let_def m_def m'_def s1_def)
  have c2: "\<forall>k. bit m' k \<longleftrightarrow> (if k = nat signum then \<not> bit m k else bit m k)"
    using bits by blast
  have c3: "int (NUM_SIGNAL c) \<le> signum \<and> \<not> bit m (nat signum) \<longrightarrow>
               \<not> mask_sig (thr s1 (running s1)) < 2 ^ NUM_SIGNAL c \<and>
               (\<forall>how p q. p \<noteq> NULL \<longrightarrow>
                  (\<exists>s2. sigprocmask c s1 how NULL p = Inr (0, s2) \<and> sigset_mem s2 p = m' \<and>
                        sigprocmask c s2 SIG_SETMASK p q = Inr (- 1, s2)))"
    using broken restore unfolding s1(1) by blast
  have c4: "\<forall>how set' oldset r s'.
               m < 2 ^ NUM_SIGNAL c \<and> sigprocmask c s how set' oldset = Inr (r, s') \<longrightarrow>
               mask_sig (thr s' (running s')) < 2 ^ NUM_SIGNAL c"
    using sigprocmask_keeps_range [OF assms(1)] unfolding m_def by blast
  show ?thesis
    using sig c2 c3 c4 unfolding Let_def m_def m'_def s1_def by blast
qed

theorem Signal_unvalidated_witness:
  "Signal config_ex kstate_ex 7 (SIG_IGN config_ex) =
     Inr (SIG_DFL config_ex, set_mask 3 136 kstate_ex) \<and>
   (\<exists>s2. sigprocmask config_ex (set_mask 3 136 kstate_ex) SIG_BLOCK NULL 2 = Inr (0, s2) \<and>
         sigprocmask config_ex s2 SIG_SETMASK 2 NULL = Inr (- 1, s2))"
proof -
  have n: "NUM_SIGNAL config_ex < 32" by (simp add: config_ex_def)
  have k: "(7::int) \<noteq> SIG_KILL config_ex" by (simp add: config_ex_def)
  have m: "mask_sig (thr kstate_ex 3) = 8"
    by (simp add: kstate_ex_def thread_ex_def)
  have h: "SIG_IGN config_ex \<noteq> SIG_DFL config_ex" by (simp add: config_ex_def)
  have b: "\<not> bit (8::32 word) 7" by (simp add: bit_numeral_word_iff)
  have r: "running kstate_ex = 3" by (simp add: kstate_ex_def)
  have l: "int (NUM_SIGNAL config_ex) \<le> 7" by (simp add: config_ex_def)
  have p: "(2::nat) \<noteq> NULL" by (simp add: NULL_def)
  have "Signal config_ex kstate_ex 7 (SIG_IGN config_ex) =
          Inr (SIG_DFL config_ex, set_mask 3 136 kstate_ex) \<and>
        (\<forall>how p q. p \<noteq> NULL \<longrightarrow>
           (\<exists>s2. sigprocmask config_ex (set_mask 3 136 kstate_ex) how NULL p = Inr (0, s2) \<and>
                 sigset_mem s2 p = 136 \<and>
                 sigprocmask config_ex s2 SIG_SETMASK p q = Inr (- 1, s2)))"
    using Signal_unvalidated [OF n intr_kstate_ex k, of "SIG_IGN config_ex"] h b l
    by (simp add: Let_def r m)
  then show ?thesis using p by blast
qed

section \<open>Properties of the allocator\<close>

lemma PGSIZE_eq: "PGSIZE = 4096"
  by (simp add: PGSIZE_def PGBITS_def)

lemma ARR_LEN_eq: "ARR_LEN = 128"
  by (simp add: ARR_LEN_def PGBITS_def)

lemma sizeof_arena_eq: "sizeof_arena = 524"
  by (simp add: sizeof_arena_def ARR_LEN_eq)

lemma desc_block_size_7: "desc_block_size 7 = 2048"
  by (simp add: desc_block_size_def)

lemma desc_block_size_le: "d < desc_cnt \<Longrightarrow> desc_block_size d \<le> 2048"
proof -
  assume "d < desc_cnt"
  then have "d \<le> 7" by (simp add: desc_cnt_def)
  then have "(2::nat) ^ d \<le> 2 ^ 7" by (rule power_increasing) simp
  then show ?thesis by (simp add: desc_block_size_def)
qed

text \<open>
  Against claim C4 as stated: with assertions compiled in, a request above half a page
  fails \<^verbatim>\<open>ASSERT (size <= PGSIZE / 2)\<close>, and the kernel panics before the test that
  would return the null pointer.
\<close>

theorem malloc_oversize_asserts:
  "malloc config_ex heap_ex 3000 = Inl AssertFail"
  by (simp add: malloc_def ASSERT_def config_ex_def PGSIZE_eq)

text \<open>
  Claim C4, amended. \<^verbatim>\<open>malloc (0)\<close> returns the null pointer and changes nothing. For a
  size above \<open>PGSIZE / 2\<close>, \<^verbatim>\<open>malloc\<close> returns the null pointer and changes nothing
  when assertions are compiled out, and fails its assertion when they are compiled in.
\<close>

theorem malloc_invalid_size:
  "malloc c s 0 = Inr (NULL, s) \<and>
   (PGSIZE div 2 < size' \<longrightarrow>
      malloc c s size' = (if NDEBUG c then Inr (NULL, s) else Inl AssertFail))"
  by (simp add: malloc_def ASSERT_def)

theorem malloc_invalid_size_witness:
  "malloc (config_ex\<lparr>NDEBUG := True\<rparr>) heap_ex 3000 = Inr (NULL, heap_ex)"
proof -
  have "PGSIZE div 2 < 3000" by (simp add: PGSIZE_eq)
  then show ?thesis
    using malloc_invalid_size [of "config_ex\<lparr>NDEBUG := True\<rparr>" heap_ex 3000] by simp
qed

lemma palloc_get_page_NULL:
  "palloc_get_page s = (a, s1) \<Longrightarrow> a = NULL \<Longrightarrow> s1 = s"
  by (auto simp: palloc_get_page_def split: list.splits if_splits)

lemma malloc_scan_pop:
  assumes "d < desc_cnt" and "size' \<le> desc_block_size d" and "free_list s d \<noteq> []"
  shows "malloc_scan c s size' d =
           (case block_to_arena c (snd (pop_free d s)) (hd (free_list s d)) of
              Inl e \<Rightarrow> Inl e
            | Inr a \<Rightarrow> Inr (Some (d, hd (free_list s d), a), snd (pop_free d s)))"
  using assms by (subst malloc_scan.simps) (simp add: pop_free_def cong: sum.case_cong)

lemma malloc_scan_next:
  assumes "d < desc_cnt - 1" and "\<not> size' \<le> desc_block_size d \<or> free_list s d = []"
  shows "malloc_scan c s size' d = malloc_scan c s size' (d + 1)"
  using assms by (subst malloc_scan.simps) auto

lemma malloc_scan_refill:
  assumes "d = desc_cnt - 1" and "\<not> size' \<le> desc_block_size d \<or> free_list s d = []"
  shows "malloc_scan c s size' d =
           (let (a, s1) = palloc_get_page s
            in if a = NULL then Inr (None, s1)
               else
                let s2 = s1\<lparr>page_list := page_list s1 @ [a]\<rparr>;
                    s3 = s2\<lparr>arena_at := (arena_at s2)(a := \<lparr>magic = ARENA_MAGIC, arr = (\<lambda>i. 0)\<rparr>)\<rparr>;
                    s4 = push_free 7 (a + sizeof_arena) s3;
                    (b, s5) = pop_free 7 s4
                in Inr (Some (d, b, a), s5))"
  using assms by (subst malloc_scan.simps) (auto simp: desc_cnt_def)

lemma malloc_scan_cases:
  assumes "d < desc_cnt"
  obtains (pop) "size' \<le> desc_block_size d" "free_list s d \<noteq> []"
  | (refill) "d = desc_cnt - 1" "\<not> size' \<le> desc_block_size d \<or> free_list s d = []"
  | (step) "d < desc_cnt - 1" "\<not> size' \<le> desc_block_size d \<or> free_list s d = []"
proof -
  have "d < desc_cnt - 1 \<or> d = desc_cnt - 1" using assms by arith
  then show thesis using that by blast
qed

lemma malloc_scan_None:
  "malloc_scan c s n d = Inr (None, s1) \<Longrightarrow> s1 = s"
proof (induction c s n d rule: malloc_scan.induct)
  case (1 c s size' d)
  show ?case
  proof (cases "d < desc_cnt")
    case False
    with "1.prems" show ?thesis by (subst (asm) malloc_scan.simps) simp
  next
    case True
    then show ?thesis
    proof (cases rule: malloc_scan_cases [where size' = size' and s = s])
      case pop
      with True "1.prems" show ?thesis
        by (simp add: malloc_scan_pop split: sum.splits)
    next
      case refill
      with "1.prems" show ?thesis
        by (auto simp: malloc_scan_refill Let_def split: prod.splits if_splits
            dest: palloc_get_page_NULL)
    next
      case step
      with True "1.prems" "1.IH" show ?thesis
        by (simp add: malloc_scan_next)
    qed
  qed
qed

lemma coalesce_top:
  "coalesce s a b (PGSIZE div 2) idx =
     (case remove_page a s of
        Inl e \<Rightarrow> Inl e
      | Inr s1 \<Rightarrow> Inr (palloc_free_page a s1))"
  by (subst coalesce.simps) simp

lemma coalesce_step:
  assumes "b_sz \<noteq> PGSIZE div 2" and "a + sizeof_arena \<le> b" and "idx < desc_cnt"
  shows "coalesce s a b b_sz idx =
     (let buddy = ((b - a - sizeof_arena) XOR b_sz) + a + sizeof_arena
      in case buddy_scan (arr (arena_at s a)) ((b - a - sizeof_arena) XOR b_sz) b_sz 0 of
           Inl e \<Rightarrow> Inl e
         | Inr True \<Rightarrow> Inr (push_free idx b s)
         | Inr False \<Rightarrow>
            (case remove_free buddy s of
               Inl e \<Rightarrow> Inl e
             | Inr s1 \<Rightarrow> coalesce s1 a (min b buddy) (push_bit 1 b_sz mod 2 ^ 32) (idx + 1)))"
  using assms
  by (subst coalesce.simps)
    (simp add: Let_def min_def not_less [symmetric] cong: sum.case_cong bool.case_cong)

lemma buddy_scan_spec:
  assumes "16 dvd boff" and "16 dvd b_sz" and "16 dvd i" and "boff + b_sz \<le> 16 * ARR_LEN"
  shows "buddy_scan ar boff b_sz i =
           Inr (\<exists>j. (boff + i) div 16 \<le> j \<and> j < (boff + b_sz) div 16 \<and> ar j \<noteq> 0)"
  using assms
proof (induction ar boff b_sz i rule: buddy_scan.induct)
  case (1 ar boff b_sz i)
  show ?case
  proof (cases "i < b_sz")
    case False
    then have "(boff + b_sz) div 16 \<le> (boff + i) div 16"
      by (intro div_le_mono) simp
    then show ?thesis using False
      by (subst buddy_scan.simps) auto
  next
    case True
    define j where "j = (boff + i) div 16"
    have dv: "16 dvd boff + i" "16 dvd boff + b_sz" using "1.prems" by simp_all
    have lt: "j < (boff + b_sz) div 16"
      unfolding j_def using True dv by (auto elim!: dvdE)
    also have "\<dots> \<le> ARR_LEN" using "1.prems"(4) by simp
    finally have inb: "j < ARR_LEN" .
    have nxt: "(boff + (i + 16)) div 16 = Suc j"
      unfolding j_def using dv by (auto elim!: dvdE)
    have jd: "drop_bit 4 (boff + i) = j"
      by (simp add: drop_bit_eq_div j_def)
    show ?thesis
    proof (cases "ar j = 0")
      case False
      then show ?thesis using True inb lt
        by (subst buddy_scan.simps) (auto simp: jd j_def [symmetric])
    next
      case z: True
      have "buddy_scan ar boff b_sz i = buddy_scan ar boff b_sz (i + 16)"
        using True inb z by (subst buddy_scan.simps) (simp add: jd)
      also have "\<dots> = Inr (\<exists>k. Suc j \<le> k \<and> k < (boff + b_sz) div 16 \<and> ar k \<noteq> 0)"
        using "1.IH" [OF True refl] inb z "1.prems"
        by (simp add: nxt jd)
      also have "(\<exists>k. Suc j \<le> k \<and> k < (boff + b_sz) div 16 \<and> ar k \<noteq> 0) \<longleftrightarrow>
                 (\<exists>k. j \<le> k \<and> k < (boff + b_sz) div 16 \<and> ar k \<noteq> 0)"
        using z by (metis Suc_leI le_neq_implies_less Suc_leD)
      finally show ?thesis by (simp add: j_def)
    qed
  qed
qed

lemma desc_block_size_Suc: "desc_block_size (Suc i) = 2 * desc_block_size i"
  by (simp add: desc_block_size_def)

lemma desc_block_size_inj: "desc_block_size i = desc_block_size j \<longleftrightarrow> i = j"
  by (simp add: desc_block_size_def)

lemma desc_block_size_dvd: "16 dvd desc_block_size i"
  by (simp add: desc_block_size_def)

lemma desc_block_size_lt:
  assumes "i < 7" shows "desc_block_size i \<le> 1024"
proof -
  have "i \<le> 6" using assms by simp
  then have "(2::nat) ^ i \<le> 2 ^ 6" by (rule power_increasing) simp
  then show ?thesis by (simp add: desc_block_size_def)
qed

lemma remove_free_only:
  assumes "idx < desc_cnt" and "x \<in> set (free_list s idx)"
    and "\<forall>j<desc_cnt. j \<noteq> idx \<longrightarrow> x \<notin> set (free_list s j)"
  shows "remove_free x s = Inr (s\<lparr>free_list := (free_list s)(idx := remove1 x (free_list s idx))\<rparr>)"
proof -
  have ex: "list_ex (\<lambda>i. x \<in> set (free_list s i)) [0..<desc_cnt]"
    using assms(1,2) by (auto simp: list_ex_iff)
  have "(\<lambda>i. if i < desc_cnt then remove1 x (free_list s i) else free_list s i) =
        (free_list s)(idx := remove1 x (free_list s idx))"
    using assms(1,3) by (auto simp: fun_eq_iff remove1_idem)
  then show ?thesis using ex by (simp add: remove_free_def)
qed

lemma coalesce_merge_first:
  assumes z: "arr (arena_at s a) = (\<lambda>i. 0)" and b: "b = a + sizeof_arena" and i: "idx < 7"
    and fl: "free_list s idx = [b + desc_block_size idx]"
    and o: "\<forall>j<desc_cnt. j \<noteq> idx \<longrightarrow> b + desc_block_size idx \<notin> set (free_list s j)"
  shows "coalesce s a b (desc_block_size idx) idx =
           coalesce (s\<lparr>free_list := (free_list s)(idx := [])\<rparr>) a b
             (desc_block_size (Suc idx)) (Suc idx)"
proof -
  define d where "d = desc_block_size idx"
  have d: "d \<le> 1024" "16 dvd d" "0 < d"
    using desc_block_size_lt [OF i] by (simp_all add: d_def desc_block_size_dvd desc_block_size_def)
  have ne: "d \<noteq> PGSIZE div 2" using d by (simp add: PGSIZE_eq)
  have ic: "idx < desc_cnt" using i by (simp add: desc_cnt_def)
  have off: "(b - a - sizeof_arena) XOR d = d" by (simp add: b)
  have scan: "buddy_scan (arr (arena_at s a)) d d 0 = Inr False"
    using d by (subst buddy_scan_spec) (simp_all add: z ARR_LEN_eq)
  have bud: "d + a + sizeof_arena = b + d" by (simp add: b)
  have rm: "remove_free (b + d) s = Inr (s\<lparr>free_list := (free_list s)(idx := [])\<rparr>)"
    using remove_free_only [OF ic, of "b + d" s] fl o by (simp add: d_def)
  have dbl: "push_bit 1 d mod 2 ^ 32 = desc_block_size (Suc idx)"
    using d by (simp add: desc_block_size_Suc d_def [symmetric])
  have le: "a + sizeof_arena \<le> b" by (simp add: b)
  have mn: "min b (b + d) = b" by simp
  show ?thesis
    unfolding d_def [symmetric] coalesce_step [OF ne le ic] Let_def off scan bud dbl mn
    by (simp add: rm)
qed

lemma pg_round_down_payload:
  assumes "a mod PGSIZE = 0" and "x < PGSIZE"
  shows "pg_round_down (a + x) = a"
proof -
  have "(a + x) mod PGSIZE = x" using assms by (simp add: mod_add_left_eq [symmetric])
  then show ?thesis by (simp add: pg_round_down_def)
qed

lemma upt_8: "[0..<8] = [0, 1, 2, 3, 4, 5, 6, 7]"
  by (simp add: upt_rec)

text \<open>
  Claim C1. From a fresh allocator whose page provider hands out the page \<open>p\<close> first,
  \<^verbatim>\<open>malloc (16)\<close> finds no block, takes exactly that page (the provider keeps \<open>ps\<close>),
  appends it to the arena list, pops the page's single block from the class of 2048
  bytes (descriptor 7, block \<open>p + sizeof_arena\<close>), and splits down: afterwards the free
  lists of 32, 64, ..., 1024 bytes each hold exactly the upper half split off at that
  size, as does the list of 16 bytes, the list of 2048 bytes is empty, and the returned
  block is the first payload slot with slot-map entry 16, all other entries 0. Freeing
  that block merges through every class, hands the page back to the provider and leaves
  the arena list and all free lists empty.
\<close>

theorem alloc16_from_fresh:
  assumes "pool s0 = p # ps" and "p \<noteq> NULL" and "p mod PGSIZE = 0"
  shows "\<exists>s1 s2 sm.
           malloc_scan c (malloc_init s0) 16 0 = Inr (Some (7, p + sizeof_arena, p), sm) \<and>
           malloc c (malloc_init s0) 16 = Inr (p + sizeof_arena, s1) \<and>
           pool s1 = ps \<and> page_list s1 = [p] \<and>
           map (free_list s1) [0..<desc_cnt] =
             map (\<lambda>x. [p + sizeof_arena + x]) [16, 32, 64, 128, 256, 512, 1024] @ [[]] \<and>
           magic (arena_at s1 p) = ARENA_MAGIC \<and>
           arr (arena_at s1 p) = (\<lambda>i. 0)(0 := 16) \<and>
           free c s1 (p + sizeof_arena) = Inr s2 \<and>
           pool s2 = ps @ [p] \<and> page_list s2 = [] \<and>
           map (free_list s2) [0..<desc_cnt] = replicate desc_cnt []"
proof -
  define s where "s = malloc_init s0"
  have fl: "free_list s = (\<lambda>i. [])" and pl: "page_list s = []" and po: "pool s = p # ps"
    using assms(1) by (simp_all add: s_def malloc_init_def)
  have scan: "malloc_scan c s 16 0 = malloc_scan c s 16 7"
    by (simp add: malloc_scan_next fl desc_cnt_def eval_nat_numeral)
  define sm where "sm = s\<lparr>pool := ps, page_list := [p],
      arena_at := (arena_at s)(p := \<lparr>magic = ARENA_MAGIC, arr = (\<lambda>i. 0)\<rparr>)\<rparr>"
  have refill: "malloc_scan c s 16 7 = Inr (Some (7, p + sizeof_arena, p), sm)"
    using assms(2)
    by (simp add: malloc_scan_refill fl pl po desc_cnt_def palloc_get_page_def push_free_def
        pop_free_def sm_def fun_upd_idem)
  define b where "b = p + sizeof_arena"
  define sp where "sp = sm\<lparr>free_list := (\<lambda>i. [])(6 := [b + 1024], 5 := [b + 512], 4 := [b + 256],
      3 := [b + 128], 2 := [b + 64], 1 := [b + 32], 0 := [b + 16])\<rparr>"
  have fm: "free_list sm = (\<lambda>i. [])" by (simp add: sm_def fl)
  have split: "malloc_split sm 16 7 b = (0, sp)"
    by (simp add: malloc_split.simps desc_block_size_def push_free_def fm sp_def)
  have slot: "slot_of p b = Inr 0"
    by (simp add: slot_of_def b_def ARR_LEN_eq)
  define s1 where "s1 = set_arr p 0 16 sp"
  have m: "malloc c s 16 = Inr (b, s1)"
    using scan refill split slot
    by (simp add: malloc_def ASSERT_def PGSIZE_eq b_def [symmetric] s1_def desc_block_size_def)
  have fl1: "map (free_list s1) [0..<desc_cnt] =
             map (\<lambda>x. [b + x]) [16, 32, 64, 128, 256, 512, 1024] @ [[]]"
    by (simp add: s1_def sp_def set_arr_def desc_cnt_def upt_8)
  have obs1: "pool s1 = ps" "page_list s1 = [p]" "magic (arena_at s1 p) = ARENA_MAGIC"
    "arr (arena_at s1 p) = (\<lambda>i. 0)(0 := 16)"
    by (simp_all add: s1_def sp_def sm_def set_arr_def)
  have bn: "b \<noteq> NULL" by (simp add: b_def NULL_def sizeof_arena_eq)
  have rd: "pg_round_down b = p"
    unfolding b_def using assms(3) by (rule pg_round_down_payload) (simp add: sizeof_arena_eq PGSIZE_eq)
  have bta: "block_to_arena c s1 b = Inr p"
    using assms(2) by (simp add: block_to_arena_def rd ASSERT_def obs1)
  have bs: "block_size c s1 b = Inr 16"
    by (simp add: block_size_def bta slot obs1)
  define sc where "sc = (if \<not> NDEBUG c then memset b 0xcc 16 s1 else s1)"
  define st where "st k = (set_arr p 0 0 sc)\<lparr>free_list :=
      (\<lambda>i. if k \<le> i \<and> i < 7 then [b + desc_block_size i] else [])\<rparr>" for k
  have lt7: "i < 7 \<longleftrightarrow> i = 0 \<or> i = 1 \<or> i = 2 \<or> i = 3 \<or> i = 4 \<or> i = 5 \<or> i = 6" for i :: nat
    by arith
  have f0: "free_list (set_arr p 0 0 sc) = (\<lambda>i. if 0 \<le> i \<and> i < 7 then [b + desc_block_size i] else [])"
    by (rule ext) (auto simp: lt7 sc_def s1_def sp_def set_arr_def memset_def desc_block_size_def)
  have st0: "set_arr p 0 0 sc = st 0"
    unfolding st_def f0 [symmetric] by simp
  have fi: "free_idx 16 0 = Inr 0"
    by (simp add: free_idx.simps)
  have fr: "free c s1 b = coalesce (st 0) p b 16 0"
    using bn by (simp add: free_def bta bs slot fi sc_def [symmetric] st0 Let_def)
  have zero: "arr (arena_at (st k) p) = (\<lambda>i. 0)" for k
    by (auto simp: st_def sc_def set_arr_def memset_def obs1 fun_eq_iff)
  have step: "coalesce (st k) p b (desc_block_size k) k =
              coalesce (st (Suc k)) p b (desc_block_size (Suc k)) (Suc k)" if "k < 7" for k
  proof -
    have inj: "desc_block_size j \<noteq> desc_block_size k" if "j \<noteq> k" for j
      using that by (simp add: desc_block_size_def)
    have fk: "free_list (st k) k = [b + desc_block_size k]"
      using that by (simp add: st_def)
    have o: "\<forall>j<desc_cnt. j \<noteq> k \<longrightarrow> b + desc_block_size k \<notin> set (free_list (st k) j)"
      by (auto simp: st_def desc_block_size_inj)
    have fe: "(\<lambda>i. if k \<le> i \<and> i < 7 then [b + desc_block_size i] else [])(k := []) =
              (\<lambda>i. if Suc k \<le> i \<and> i < 7 then [b + desc_block_size i] else [])"
      by (rule ext) auto
    have "(st k)\<lparr>free_list := (free_list (st k))(k := [])\<rparr> = st (Suc k)"
      by (simp add: st_def fe)
    then show ?thesis
      using coalesce_merge_first [OF zero b_def that fk o] by simp
  qed
  have chain: "coalesce (st 0) p b 16 0 = coalesce (st 7) p b 2048 7"
  proof -
    have n: "coalesce (st 0) p b 16 0 = coalesce (st 0) p b (desc_block_size 0) 0"
      by (simp add: desc_block_size_def)
    have e: "coalesce (st i) p b (desc_block_size i) i = coalesce (st 7) p b (desc_block_size 7) 7"
      if "i \<le> 7" for i
      using that
    proof (induction "7 - i" arbitrary: i)
      case 0
      then show ?case by simp
    next
      case (Suc n)
      then have "i < 7" by simp
      moreover have "n = 7 - Suc i" using Suc.hyps(2) by simp
      ultimately show ?case using Suc.hyps(1) [of "Suc i"] step [of i] by simp
    qed
    show ?thesis unfolding n using e [of 0] by (simp add: desc_block_size_7)
  qed
  define s2 where "s2 = palloc_free_page p ((st 7)\<lparr>page_list := []\<rparr>)"
  have top: "coalesce (st 7) p b 2048 7 = Inr s2"
    using coalesce_top [of "st 7" p b 7]
    by (simp add: PGSIZE_eq remove_page_def st_def sc_def set_arr_def memset_def obs1 s2_def)
  have obs2: "pool s2 = ps @ [p]" "page_list s2 = []"
    "map (free_list s2) [0..<desc_cnt] = replicate desc_cnt []"
    by (simp_all add: s2_def palloc_free_page_def st_def sc_def set_arr_def memset_def obs1
        desc_cnt_def upt_8 eval_nat_numeral)
  show ?thesis
    using scan refill m fl1 obs1 fr chain top obs2
    unfolding s_def b_def by (intro exI [of _ s1] exI [of _ s2] exI [of _ sm]) simp
qed

theorem alloc16_from_fresh_witness:
  "\<exists>s1 s2. malloc config_ex heap_ex 16 = Inr (8716, s1) \<and> page_list s1 = [8192] \<and>
     free_list s1 1 = [8748] \<and> arr (arena_at s1 8192) 0 = 16 \<and>
     free config_ex s1 8716 = Inr s2 \<and> page_list s2 = [] \<and> pool s2 = [12288, 8192]"
proof -
  have a: "pool heap_raw = 8192 # [12288]" by (simp add: heap_raw_def)
  have b: "(8192::nat) \<noteq> NULL" by (simp add: NULL_def)
  have c: "(8192::nat) mod PGSIZE = 0" by (simp add: PGSIZE_eq)
  show ?thesis
    using alloc16_from_fresh [OF a b c, of config_ex]
    by (auto simp: heap_ex_def sizeof_arena_eq desc_cnt_def upt_8)
qed

lemma slot_of_Inr:
  "slot_of a b = Inr i \<longleftrightarrow>
     a + sizeof_arena \<le> b \<and> i = (b - a - sizeof_arena) div 16 \<and> i < ARR_LEN"
  by (auto simp: slot_of_def Let_def drop_bit_eq_div)


lemma block_to_arena_free_list [simp]:
  "block_to_arena c (s\<lparr>free_list := f\<rparr>) b = block_to_arena c s b"
  by (simp add: block_to_arena_def)

lemma malloc_scan_result:
  assumes "malloc_scan c s n d0 = Inr (Some (d, b, a), s1)" and "n \<le> 2048"
  shows "d < desc_cnt \<and> n \<le> desc_block_size d \<and>
         (free_list s d \<noteq> [] \<and> b = hd (free_list s d) \<and> block_to_arena c s b = Inr a \<and>
            s1 = s\<lparr>free_list := (free_list s)(d := tl (free_list s d))\<rparr> \<or>
          d = 7 \<and> b = a + sizeof_arena \<and> a \<noteq> NULL \<and> pool s = a # pool s1 \<and>
            s1 = s\<lparr>pool := pool s1, page_list := page_list s @ [a],
                   arena_at := (arena_at s)(a := \<lparr>magic = ARENA_MAGIC, arr = (\<lambda>i. 0)\<rparr>)\<rparr>)"
  using assms
proof (induction c s n d0 rule: malloc_scan.induct)
  case (1 c s size' d0)
  show ?case
  proof (cases "d0 < desc_cnt")
    case False
    with "1.prems" show ?thesis by (subst (asm) malloc_scan.simps) simp
  next
    case True
    then show ?thesis
    proof (cases rule: malloc_scan_cases [where size' = size' and s = s])
      case pop
      have "malloc_scan c s size' d0 =
          (case block_to_arena c s (hd (free_list s d0)) of
             Inl e \<Rightarrow> Inl e
           | Inr a \<Rightarrow> Inr (Some (d0, hd (free_list s d0), a),
                         s\<lparr>free_list := (free_list s)(d0 := tl (free_list s d0))\<rparr>))"
        using True pop by (simp add: malloc_scan_pop pop_free_def cong: sum.case_cong)
      with "1.prems"(1) have "d = d0 \<and> b = hd (free_list s d0) \<and>
          block_to_arena c s (hd (free_list s d0)) = Inr a \<and>
          s1 = s\<lparr>free_list := (free_list s)(d0 := tl (free_list s d0))\<rparr>"
        by (auto split: sum.splits)
      with True pop show ?thesis by blast
    next
      case refill
      then have e: "free_list s 7 = []"
        using "1.prems"(2) by (auto simp: desc_cnt_def desc_block_size_7)
      have "malloc_scan c s size' d0 =
          (case pool s of
             [] \<Rightarrow> Inr (None, s)
           | a # ps \<Rightarrow>
               if a = NULL then Inr (None, s)
               else Inr (Some (7, a + sizeof_arena, a),
                         s\<lparr>pool := ps, page_list := page_list s @ [a],
                           arena_at := (arena_at s)(a := \<lparr>magic = ARENA_MAGIC, arr = (\<lambda>i. 0)\<rparr>)\<rparr>))"
        using refill
        by (simp add: malloc_scan_refill Let_def palloc_get_page_def push_free_def pop_free_def
            e desc_cnt_def fun_upd_idem split: list.splits)
      with "1.prems"(1) obtain ps where "pool s = a # ps" "a \<noteq> NULL" "d = 7"
        "b = a + sizeof_arena"
        "s1 = s\<lparr>pool := ps, page_list := page_list s @ [a],
                 arena_at := (arena_at s)(a := \<lparr>magic = ARENA_MAGIC, arr = (\<lambda>i. 0)\<rparr>)\<rparr>"
        by (auto split: list.splits if_splits)
      note r = this
      have "pool s = a # pool s1" using r(1,5) by simp
      moreover have "d < desc_cnt" "size' \<le> desc_block_size d"
        using r(3) "1.prems"(2) by (simp_all add: desc_cnt_def desc_block_size_7)
      moreover have "s1 = s\<lparr>pool := pool s1, page_list := page_list s @ [a],
                 arena_at := (arena_at s)(a := \<lparr>magic = ARENA_MAGIC, arr = (\<lambda>i. 0)\<rparr>)\<rparr>"
        by (subst (1 2) r(5)) simp
      ultimately show ?thesis
        using r(2,3,4) by blast
    next
      case step
      with True "1.prems" "1.IH" show ?thesis
        by (simp add: malloc_scan_next)
    qed
  qed
qed

lemma desc_block_size_16: "desc_block_size d = 16 \<longleftrightarrow> d = 0"
  by (simp add: desc_block_size_def)

lemma malloc_split_result:
  assumes "malloc_split s n d b = (d', s')" and "n \<le> desc_block_size d"
  shows "d' \<le> d \<and> n \<le> desc_block_size d' \<and> (d' = 0 \<or> desc_block_size d' < 2 * n) \<and>
         arena_at s' = arena_at s \<and> page_list s' = page_list s \<and> pool s' = pool s \<and>
         mem s' = mem s"
  using assms
proof (induction s n d b rule: malloc_split.induct)
  case (1 s size' d b)
  show ?case
  proof (cases "d = 0")
    case True
    with "1.prems" show ?thesis
      by (subst (asm) malloc_split.simps) (simp add: desc_block_size_16)
  next
    case d: False
    show ?thesis
    proof (cases "2 * size' \<le> desc_block_size d")
      case False
      with d "1.prems" show ?thesis
        by (subst (asm) malloc_split.simps) (simp add: desc_block_size_16)
    next
      case True
      have h: "desc_block_size d = 2 * desc_block_size (d - 1)"
        using d desc_block_size_Suc [of "d - 1"] by simp
      have "malloc_split (push_free (d - 1) (b + desc_block_size (d - 1)) s) size' (d - 1) b = (d', s')"
        using d True "1.prems"(1)
        by (subst (asm) malloc_split.simps) (simp add: desc_block_size_16)
      moreover have "size' \<le> desc_block_size (d - 1)"
        using True h by simp
      ultimately have "d' \<le> d - 1 \<and> size' \<le> desc_block_size d' \<and>
         (d' = 0 \<or> desc_block_size d' < 2 * size') \<and>
         arena_at s' = arena_at (push_free (d - 1) (b + desc_block_size (d - 1)) s) \<and>
         page_list s' = page_list (push_free (d - 1) (b + desc_block_size (d - 1)) s) \<and>
         pool s' = pool (push_free (d - 1) (b + desc_block_size (d - 1)) s) \<and>
         mem s' = mem (push_free (d - 1) (b + desc_block_size (d - 1)) s)"
        using "1.IH" d True by (simp add: desc_block_size_16)
      then show ?thesis by (auto simp: push_free_def)
    qed
  qed
qed

lemma malloc_Inr:
  assumes "malloc c s n = Inr (p, s')"
  shows "p = NULL \<and> s' = s \<or>
         p \<noteq> NULL \<and> 0 < n \<and> n \<le> 2048 \<and>
         (\<exists>d a s1 d' s2 i.
            malloc_scan c s n 0 = Inr (Some (d, p, a), s1) \<and>
            malloc_split s1 n d p = (d', s2) \<and> slot_of a p = Inr i \<and>
            s' = set_arr a i (int (desc_block_size d')) s2)"
proof (cases "n = 0 \<or> PGSIZE div 2 < n")
  case True
  with assms show ?thesis
    by (auto simp: malloc_def ASSERT_def split: if_splits)
next
  case False
  then have n: "0 < n" "n \<le> 2048" by (simp_all add: PGSIZE_eq)
  have m: "malloc c s n =
      (case malloc_scan c s n 0 of
              Inl e \<Rightarrow> Inl e
            | Inr (None, s1) \<Rightarrow> Inr (NULL, s1)
            | Inr (Some (d, b, a), s1) \<Rightarrow>
               (let (d', s2) = malloc_split s1 n d b
                in case slot_of a b of
                     Inl e \<Rightarrow> Inl e
                   | Inr i \<Rightarrow> Inr (b, set_arr a i (int (desc_block_size d')) s2)))"
    using False by (simp add: malloc_def ASSERT_def PGSIZE_eq)
  from assms obtain r s1 where sc: "malloc_scan c s n 0 = Inr (r, s1)"
    unfolding m by (auto split: sum.splits)
  show ?thesis
  proof (cases r)
    case None
    with sc assms show ?thesis
      unfolding m by (auto dest: malloc_scan_None)
  next
    case (Some t)
    obtain d b a where t: "t = (d, b, a)" by (cases t)
    obtain d' s2 where sp: "malloc_split s1 n d b = (d', s2)" by force
    from assms sc Some t sp obtain i where i: "slot_of a b = Inr i"
      and r: "p = b" "s' = set_arr a i (int (desc_block_size d')) s2"
      unfolding m by (auto split: sum.splits)
    have "b \<noteq> NULL" using i by (auto simp: slot_of_Inr NULL_def sizeof_arena_eq)
    then show ?thesis using n sc Some t sp i r by blast
  qed
qed



lemma magic_set_arr [simp]: "magic (arena_at (set_arr a i v s) x) = magic (arena_at s x)"
  by (simp add: set_arr_def)

lemma arr_set_arr_same [simp]: "arr (arena_at (set_arr a i v s) a) i = v"
  by (simp add: set_arr_def)




lemma desc_block_size_push_bit: "desc_block_size j = push_bit (j + 4) 1"
  by (simp add: desc_block_size_def push_bit_eq_mult power_add)

lemma xor_one_nat: "(q::nat) XOR 1 = (if even q then q + 1 else q - 1)"
  using xor_one_eq [of q] by auto

lemma xor_Suc_0_nat: "(q::nat) XOR Suc 0 = (if even q then Suc q else q - Suc 0)"
  using xor_one_nat [of q] by simp

lemma xor_block_size:
  fixes q :: nat
  shows "(desc_block_size j * q) XOR desc_block_size j = desc_block_size j * (q XOR 1)"
proof -
  have "desc_block_size j * q = push_bit (j + 4) q"
    by (simp add: desc_block_size_def push_bit_eq_mult power_add)
  moreover have "desc_block_size j * (q XOR 1) = push_bit (j + 4) (q XOR 1)"
    by (simp add: desc_block_size_def push_bit_eq_mult power_add)
  moreover have "push_bit (j + 4) q XOR push_bit (j + 4) 1 = push_bit (j + 4) (q XOR 1)"
    by simp
  ultimately show ?thesis
    by (simp only: desc_block_size_push_bit [symmetric])
qed

lemma buddy_offset:
  fixes off :: nat
  assumes "desc_block_size j dvd off"
  shows "off XOR desc_block_size j =
           (if even (off div desc_block_size j) then off + desc_block_size j
            else off - desc_block_size j)"
proof -
  define d where "d = desc_block_size j"
  obtain q where q: "off = d * q" using assms by (auto simp: d_def)
  have d0: "0 < d" by (simp add: d_def desc_block_size_def)
  then have dq: "off div d = q" by (simp add: q)
  have "off XOR d = d * (q XOR 1)"
    unfolding q d_def by (rule xor_block_size)
  also have "\<dots> = (if even q then off + d else off - d)"
    unfolding xor_one_nat q by (simp add: algebra_simps diff_mult_distrib2)
  finally show ?thesis
    by (simp add: d_def [symmetric] dq)
qed

lemma free_idx_class:
  assumes "idx \<le> k" and "k < 28"
  shows "free_idx (desc_block_size k) idx = Inr k"
  using assms
proof (induction "k - idx" arbitrary: idx)
  case 0
  then have "idx = k" by simp
  then show ?case using "0.prems"(2)
    by (subst free_idx.simps) (simp add: desc_block_size_def power_add)
next
  case (Suc n)
  then have lt: "idx < k" by simp
  then have "(2::nat) ^ idx < 2 ^ k" by simp
  then have "push_bit (idx + 4) 1 < desc_block_size k"
    by (simp add: desc_block_size_def power_add)
  moreover have "free_idx (desc_block_size k) (idx + 1) = Inr k"
    using Suc.hyps(1) [of "idx + 1"] Suc.hyps(2) Suc.prems lt by simp
  ultimately show ?case using lt Suc.prems(2)
    by (subst free_idx.simps) simp
qed

lemma free_live_block:
  assumes "p \<noteq> NULL" and "block_to_arena c s p = Inr a" and "slot_of a p = Inr i"
    and "arr (arena_at s a) i = int (desc_block_size k)" and "k < desc_cnt"
  shows "free c s p =
           coalesce (set_arr a i 0 (if \<not> NDEBUG c then memset p 0xcc (desc_block_size k) s else s))
             a p (desc_block_size k) k"
proof -
  have "nat (int (desc_block_size k) mod 2 ^ 32) = desc_block_size k"
    using desc_block_size_le [OF assms(5)] by simp
  then have bs: "block_size c s p = Inr (desc_block_size k)"
    using assms(2,3,4) by (simp add: block_size_def)
  have fi: "free_idx (desc_block_size k) 0 = Inr k"
    using assms(5) by (intro free_idx_class) (simp_all add: desc_cnt_def)
  show ?thesis
    using assms(1) by (simp add: free_def assms(2,3) bs fi Let_def)
qed

lemma buddy_in_range:
  assumes j: "j < 7" and dv: "desc_block_size j dvd off" and lt: "off < 2048"
  shows "desc_block_size j dvd (off XOR desc_block_size j)"
    and "(off XOR desc_block_size j) + desc_block_size j \<le> 2048"
    and "desc_block_size (Suc j) dvd min off (off XOR desc_block_size j)"
    and "min off (off XOR desc_block_size j) < 2048"
    and "off XOR desc_block_size j \<noteq> off"
proof -
  define d where "d = desc_block_size j"
  obtain q where q: "off = d * q" using dv by (auto simp: d_def)
  have d0: "0 < d" by (simp add: d_def desc_block_size_def)
  have x: "off XOR d = d * (q XOR 1)"
    unfolding q d_def by (rule xor_block_size)
  have top: "2048 = d * 2 ^ (7 - j)"
    using j by (simp add: d_def desc_block_size_def flip: power_add)
  have "d * q < d * 2 ^ (7 - j)" using lt by (simp add: q top [symmetric])
  then have ql: "q < 2 ^ (7 - j)" using d0 by simp
  have ev: "even ((2::nat) ^ (7 - j))" using j by simp
  have "q XOR 1 < 2 ^ (7 - j)"
  proof (cases "even q")
    case True
    then have "q + 1 \<noteq> 2 ^ (7 - j)" using ev by (metis even_add odd_one)
    then show ?thesis using True ql by (simp add: xor_one_nat xor_Suc_0_nat)
  next
    case False
    then show ?thesis using ql by (simp add: xor_one_nat xor_Suc_0_nat)
  qed
  then have "(q XOR 1) + 1 \<le> 2 ^ (7 - j)" by simp
  then have "d * ((q XOR 1) + 1) \<le> d * 2 ^ (7 - j)" by (rule mult_le_mono2)
  then show "(off XOR desc_block_size j) + desc_block_size j \<le> 2048"
    by (simp add: x d_def [symmetric] top [symmetric])
  show "desc_block_size j dvd (off XOR desc_block_size j)"
    by (simp add: x d_def [symmetric])
  have "min (d * q) (d * (q XOR 1)) = d * (2 * (q div 2))"
    by (cases "even q") (auto simp: xor_one_nat xor_Suc_0_nat min_def elim!: evenE oddE)
  then have m: "min off (off XOR d) = 2 * d * (q div 2)"
    unfolding x unfolding q by simp
  show "desc_block_size (Suc j) dvd min off (off XOR desc_block_size j)"
    unfolding d_def [symmetric] m by (simp add: desc_block_size_Suc d_def [symmetric])
  show "min off (off XOR desc_block_size j) < 2048"
    using lt by simp
  have "q XOR 1 \<noteq> q"
  proof (cases "even q")
    case True
    then show ?thesis by (simp add: xor_one_nat xor_Suc_0_nat)
  next
    case False
    then have "0 < q" by (cases q) auto
    with False show ?thesis by (simp add: xor_one_nat xor_Suc_0_nat)
  qed
  then have "d * (q XOR 1) \<noteq> d * q" using d0 by simp
  then show "off XOR desc_block_size j \<noteq> off"
    unfolding d_def [symmetric] x unfolding q .
qed

lemma coalesce_release:
  assumes "a \<in> set (page_list s)"
  shows "coalesce s a b (PGSIZE div 2) idx = Inr (release_arena a s)"
  using assms by (simp add: coalesce_top remove_page_def palloc_free_page_def release_arena_def)

lemma coalesce_class:
  assumes j: "j < 7" and b: "a + sizeof_arena \<le> b"
    and dv: "desc_block_size j dvd b - a - sizeof_arena" and lt: "b - a - sizeof_arena < PGSIZE div 2"
  defines "boff \<equiv> (b - a - sizeof_arena) XOR desc_block_size j"
  defines "buddy \<equiv> a + sizeof_arena + boff"
  shows "buddy_in_use s a boff (desc_block_size j) \<Longrightarrow>
           coalesce s a b (desc_block_size j) j = Inr (push_free j b s)"
    and "\<not> buddy_in_use s a boff (desc_block_size j) \<Longrightarrow>
           coalesce s a b (desc_block_size j) j =
             (case remove_free buddy s of
                Inl e \<Rightarrow> Inl e
              | Inr s1 \<Rightarrow> coalesce s1 a (min b buddy) (2 * desc_block_size j) (Suc j))"
    and "a + sizeof_arena \<le> min b buddy"
    and "desc_block_size (Suc j) dvd min b buddy - a - sizeof_arena"
    and "min b buddy - a - sizeof_arena < PGSIZE div 2"
proof -
  define d where "d = desc_block_size j"
  define off where "off = b - a - sizeof_arena"
  have lt': "off < 2048" using lt by (simp add: off_def PGSIZE_eq)
  note r = buddy_in_range [OF j dv [folded off_def] lt', folded d_def boff_def [unfolded off_def [symmetric]]]
  have d: "d \<le> 1024" "16 dvd d"
    using desc_block_size_lt [OF j] by (simp_all add: d_def desc_block_size_dvd)
  have ne: "d \<noteq> PGSIZE div 2" using d by (simp add: PGSIZE_eq)
  have ic: "j < desc_cnt" using j by (simp add: desc_cnt_def)
  have b16: "16 dvd boff" using r(1) d(2) by (rule dvd_trans [rotated])
  have scan: "buddy_scan (arr (arena_at s a)) boff d 0 = Inr (buddy_in_use s a boff d)"
    using r(2) d(2) b16
    by (subst buddy_scan_spec) (auto simp: ARR_LEN_eq buddy_in_use_def list_ex_iff)
  have dbl: "push_bit 1 d mod 2 ^ 32 = 2 * d" using d by simp
  have bud: "boff + a + sizeof_arena = buddy" by (simp add: buddy_def)
  have step: "coalesce s a b d j =
     (case buddy_scan (arr (arena_at s a)) boff d 0 of
           Inl e \<Rightarrow> Inl e
         | Inr True \<Rightarrow> Inr (push_free j b s)
         | Inr False \<Rightarrow>
            (case remove_free buddy s of
               Inl e \<Rightarrow> Inl e
             | Inr s1 \<Rightarrow> coalesce s1 a (min b buddy) (2 * d) (Suc j)))"
    unfolding coalesce_step [OF ne b ic] Let_def off_def [symmetric]
      boff_def [unfolded off_def [symmetric] d_def [symmetric], symmetric] bud dbl
      Suc_eq_plus1
    by (rule refl)
  show "buddy_in_use s a boff (desc_block_size j) \<Longrightarrow>
           coalesce s a b (desc_block_size j) j = Inr (push_free j b s)"
    unfolding d_def [symmetric] step scan by simp
  show "\<not> buddy_in_use s a boff (desc_block_size j) \<Longrightarrow>
           coalesce s a b (desc_block_size j) j =
             (case remove_free buddy s of
                Inl e \<Rightarrow> Inl e
              | Inr s1 \<Rightarrow> coalesce s1 a (min b buddy) (2 * desc_block_size j) (Suc j))"
    unfolding d_def [symmetric] step scan by simp
  have bo: "b = a + sizeof_arena + off" using b by (simp add: off_def)
  have mn: "min b buddy = a + sizeof_arena + min off boff"
    by (simp add: bo buddy_def min_def)
  show "a + sizeof_arena \<le> min b buddy" by (simp add: mn)
  show "desc_block_size (Suc j) dvd min b buddy - a - sizeof_arena"
    using r(3) by (simp add: mn)
  show "min b buddy - a - sizeof_arena < PGSIZE div 2"
    using r(4) by (simp add: mn PGSIZE_eq)
qed


section \<open>The invariant of the allocator and the coalesce loop\<close>

lemma desc_block_size_pos [simp]: "0 < desc_block_size k"
  by (simp add: desc_block_size_def)

lemma desc_block_size_neq_0 [simp]: "desc_block_size k \<noteq> 0"
  by (simp add: desc_block_size_def)

lemma desc_block_size_mono: "j \<le> k \<Longrightarrow> desc_block_size j dvd desc_block_size k"
  by (simp add: desc_block_size_def le_imp_power_dvd)

lemma desc_block_size_less: "j < k \<Longrightarrow> desc_block_size (Suc j) dvd desc_block_size k"
  by (rule desc_block_size_mono) simp

lemma covers_aligned:
  assumes "desc_block_size k dvd off"
  shows "covers off k x \<longleftrightarrow> off = x div desc_block_size k * desc_block_size k"
proof -
  define d where "d = desc_block_size k"
  have d: "0 < d" by (simp add: d_def)
  obtain q where q: "off = d * q" using assms by (auto simp: d_def)
  have "(d * q \<le> x \<and> x < d * q + d) \<longleftrightarrow> x div d = q"
  proof
    assume "d * q \<le> x \<and> x < d * q + d"
    then show "x div d = q" by (intro div_nat_eqI) simp_all
  next
    assume "x div d = q"
    then have "q * d = x - x mod d" by (simp add: minus_mod_eq_div_mult)
    moreover have "x mod d < d" using d by simp
    ultimately show "d * q \<le> x \<and> x < d * q + d"
      by (simp add: mult.commute)
  qed
  then show ?thesis
    unfolding covers_def d_def [symmetric] q using d by (auto simp: mult.commute)
qed

lemma covers_nested:
  assumes a: "desc_block_size j dvd u1" and b: "desc_block_size k dvd u2" and jk: "j \<le> k"
    and c1: "covers u1 j x" and c2: "covers u2 k x"
  shows "u2 \<le> u1 \<and> u1 + desc_block_size j \<le> u2 + desc_block_size k"
proof -
  define d where "d = desc_block_size j"
  define e where "e = desc_block_size k"
  have de: "d dvd e" unfolding d_def e_def using jk by (rule desc_block_size_mono)
  then obtain m where m: "e = d * m" by auto
  have d: "0 < d" "0 < e" by (simp_all add: d_def e_def)
  then have m0: "0 < m" using m by (cases m) auto
  have u1: "u1 = x div d * d" using covers_aligned [OF a] c1 by (simp add: d_def)
  have u2: "u2 = x div e * e" using covers_aligned [OF b] c2 by (simp add: e_def)
  define t where "t = x div d"
  have u1': "u1 = t * d" by (simp add: u1 t_def)
  have "x div e = t div m" by (simp add: m div_mult2_eq t_def)
  then have u2': "u2 = (t div m * m) * d" by (simp add: u2 m)
  have "t div m * m \<le> t" by simp
  then have "t div m * m * d \<le> t * d" by (rule mult_le_mono1)
  then have le: "u2 \<le> u1" by (simp only: u1' u2')
  have "t = t div m * m + t mod m" by simp
  moreover have "t mod m < m" using m0 by simp
  ultimately have "t < t div m * m + m" by linarith
  then have "t + 1 \<le> t div m * m + m" by simp
  then have "(t + 1) * d \<le> (t div m * m + m) * d" by (rule mult_le_mono1)
  then have "t * d + d \<le> (t div m * m) * d + d * m" by (simp add: algebra_simps)
  then have "u1 + d \<le> u2 + e" by (simp only: u1' u2' m)
  with le show ?thesis by (simp add: d_def e_def)
qed

lemma parent_covers:
  assumes "desc_block_size j dvd off"
  defines "p \<equiv> min off (off XOR desc_block_size j)"
  shows "covers p (Suc j) off" and "covers p (Suc j) (off XOR desc_block_size j)"
    and "desc_block_size (Suc j) dvd p"
proof -
  define d where "d = desc_block_size j"
  obtain q where q: "off = d * q" using assms(1) by (auto simp: d_def)
  have d0: "0 < d" by (simp add: d_def)
  have dq: "off div d = q" using d0 by (simp add: q)
  have x: "off XOR d = (if even q then off + d else off - d)"
    using buddy_offset [OF assms(1)] by (simp add: d_def [symmetric] dq)
  have "covers p (Suc j) off \<and> covers p (Suc j) (off XOR d) \<and> 2 * d dvd p"
  proof (cases "even q")
    case True
    then have px: "off XOR d = off + d" "p = off" by (simp_all add: x p_def d_def [symmetric])
    have "2 * d dvd off" unfolding q using True by (auto elim!: evenE)
    then show ?thesis
      unfolding px using d0 by (simp add: covers_def desc_block_size_Suc d_def [symmetric])
  next
    case False
    then obtain r where r: "q = 2 * r + 1" by (auto elim!: oddE)
    have le: "d \<le> off" by (simp add: q r)
    then have px: "off XOR d = off - d" "p = off - d"
      using False by (simp_all add: x p_def d_def [symmetric])
    have "off - d = 2 * d * r" by (simp add: q r algebra_simps)
    then have "2 * d dvd off - d" by simp
    then show ?thesis
      unfolding px using d0 le by (simp add: covers_def desc_block_size_Suc d_def [symmetric])
  qed
  then show "covers p (Suc j) off" and "covers p (Suc j) (off XOR desc_block_size j)"
    and "desc_block_size (Suc j) dvd p"
    by (simp_all add: d_def desc_block_size_Suc)
qed

lemma covers_self: "covers off k off"
  by (simp add: covers_def)

lemma covers_start:
  assumes "desc_block_size k dvd off" and "desc_block_size k dvd x" and "covers off k x"
  shows "x = off"
proof -
  obtain q where q: "x = desc_block_size k * q" using assms(2) by auto
  have "x div desc_block_size k * desc_block_size k = x" by (simp add: q)
  then show ?thesis using covers_aligned [OF assms(1), of x] assms(3) by simp
qed

text \<open>
  The key fact about tilings: when every block that starts inside the range of the buddy
  of a block is in \<open>F\<close>, and \<open>F\<close> holds no two buddies, the buddy itself is a block of \<open>F\<close>
  (of the same class).
\<close>

lemma tiled_buddy_free:
  assumes t: "tiled B" and h: "(off, k) \<in> B" and k: "k < 7"
    and inR: "\<And>u j. (u, j) \<in> B \<Longrightarrow> off XOR desc_block_size k \<le> u \<Longrightarrow>
                u < (off XOR desc_block_size k) + desc_block_size k \<Longrightarrow> (u, j) \<in> F"
    and nb: "\<And>u j. (u, j) \<in> F \<Longrightarrow> (u XOR desc_block_size j, j) \<notin> F"
  shows "(off XOR desc_block_size k, k) \<in> F"
proof -
  define d where "d = desc_block_size k"
  define boff where "boff = off XOR d"
  have wf: "j < desc_cnt \<and> desc_block_size j dvd u \<and> u + desc_block_size j \<le> PGSIZE div 2"
    if "(u, j) \<in> B" for u j
    using t that by (auto simp: tiled_def)
  have cov: "\<exists>u j. (u, j) \<in> B \<and> covers u j x" if "x < PGSIZE div 2" for x
    using t that by (auto simp: tiled_def)
  have uniq: "u = u' \<and> j = j'"
    if "(u, j) \<in> B" "(u', j') \<in> B" "covers u j x" "covers u' j' x" for u j u' j' x
    using t that unfolding tiled_def by blast
  have hd: "d dvd off" and hl: "off < 2048"
    using wf [OF h] by (simp_all add: d_def PGSIZE_eq) (metis add_lessD1 desc_block_size_pos less_add_same_cancel1 order_less_le_trans)
  have r: "desc_block_size k dvd boff" "boff + desc_block_size k \<le> 2048"
    using buddy_in_range [OF k hd [unfolded d_def] hl] by (simp_all add: boff_def d_def)
  have inR': "(u, j) \<in> F" if "(u, j) \<in> B" "covers boff k u" for u j
    using inR [of u j] that by (simp add: covers_def boff_def d_def)
  have inside: "j \<le> k \<and> covers boff k u"
    if b: "(u, j) \<in> B" and c: "covers u j x" and x: "covers boff k x" for u j x
  proof (rule ccontr)
    assume n: "\<not> (j \<le> k \<and> covers boff k u)"
    have jk: "k < j"
    proof (rule ccontr)
      assume "\<not> k < j"
      then have le: "j \<le> k" by simp
      have "boff \<le> u \<and> u + desc_block_size j \<le> boff + desc_block_size k"
        using wf [OF b] r(1) le c x by (intro covers_nested) simp_all
      then have "covers boff k u" by (simp add: covers_def) (metis add_leD1 desc_block_size_pos le_neq_implies_less less_add_same_cancel1 not_less order_less_le_trans)
      with le n show False by simp
    qed
    define p where "p = min off boff"
    have pc: "covers p (Suc k) off" "covers p (Suc k) boff" "desc_block_size (Suc k) dvd p"
      using parent_covers [OF hd [unfolded d_def]] by (simp_all add: p_def boff_def d_def)
    have px: "covers p (Suc k) x"
    proof -
      have "p \<le> boff \<and> boff + desc_block_size k \<le> p + desc_block_size (Suc k)"
        using r(1) pc(3) pc(2) covers_self [of boff k]
        by (intro covers_nested) simp_all
      then show ?thesis using x by (auto simp: covers_def)
    qed
    have "u \<le> p \<and> p + desc_block_size (Suc k) \<le> u + desc_block_size j"
      using pc(3) wf [OF b] jk px c by (intro covers_nested) simp_all
    then have "covers u j off" using pc(1) by (auto simp: covers_def)
    then have "u = off \<and> j = k" using uniq [OF b h] covers_self by blast
    with jk show False by simp
  qed
  define S where "S = {j. \<exists>u. (u, j) \<in> B \<and> covers boff k u}"
  have bl: "boff < PGSIZE div 2" using r(2) by (simp add: PGSIZE_eq d_def [symmetric]) (metis add_leD1 d_def desc_block_size_pos le_neq_implies_less less_add_same_cancel1 not_less order_less_le_trans add.commute)
  obtain u1 j1 where b1: "(u1, j1) \<in> B" "covers u1 j1 boff" using cov [OF bl] by blast
  have "j1 \<in> S"
    using inside [OF b1 covers_self] b1(1) by (auto simp: S_def)
  then have ne: "S \<noteq> {}" by blast
  define j where "j = (LEAST j. j \<in> S)"
  have jS: "j \<in> S" unfolding j_def using ne by (metis LeastI ex_in_conv)
  have jmin: "j \<le> j'" if "j' \<in> S" for j' unfolding j_def using that by (rule Least_le)
  obtain u where u: "(u, j) \<in> B" "covers boff k u" using jS by (auto simp: S_def)
  have jk: "j \<le> k" using inside [OF u(1) covers_self u(2)] by simp
  have oF: "(u, j) \<in> F" using inR' [OF u] .
  show ?thesis
  proof (cases "j = k")
    case True
    have "u = boff"
      using wf [OF u(1)] r(1) u(2) True by (intro covers_start) (simp_all add: d_def)
    then show ?thesis using oF True by (simp add: boff_def d_def)
  next
    case False
    then have lt: "j < k" using jk by simp
    define u' where "u' = u XOR desc_block_size j"
    define p where "p = min u u'"
    have od: "desc_block_size j dvd u" using wf [OF u(1)] by simp
    have pc: "covers p (Suc j) u" "covers p (Suc j) u'" "desc_block_size (Suc j) dvd p"
      using parent_covers [OF od] by (simp_all add: p_def u'_def)
    have pR: "boff \<le> p \<and> p + desc_block_size (Suc j) \<le> boff + desc_block_size k"
      using pc(3) r(1) lt pc(1) u(2) by (intro covers_nested) (simp_all add: d_def)
    then have u'R: "covers boff k u'" using pc(2) by (auto simp: covers_def)
    then have "u' < PGSIZE div 2" using r(2) by (auto simp: covers_def PGSIZE_eq d_def)
    then obtain u2 j2 where b2: "(u2, j2) \<in> B" "covers u2 j2 u'" using cov by blast
    have in2: "j2 \<le> k \<and> covers boff k u2" using inside [OF b2 u'R] .
    then have "j2 \<in> S" using b2(1) by (auto simp: S_def)
    then have le: "j \<le> j2" by (rule jmin)
    have "j2 = j"
    proof (rule ccontr)
      assume "j2 \<noteq> j"
      then have "Suc j \<le> j2" using le by simp
      then have "u2 \<le> p \<and> p + desc_block_size (Suc j) \<le> u2 + desc_block_size j2"
        using pc(3) wf [OF b2(1)] pc(2) b2(2) by (intro covers_nested) simp_all
      then have "covers u2 j2 u" using pc(1) by (auto simp: covers_def)
      then have "u2 = u \<and> j2 = j" using uniq [OF b2(1) u(1)] covers_self by blast
      with \<open>j2 \<noteq> j\<close> show False by simp
    qed
    moreover have "desc_block_size j dvd u'"
      using xor_block_size od by (auto simp: u'_def elim!: dvdE)
    ultimately have "u2 = u'"
      using wf [OF b2(1)] b2(2) by (intro covers_start [symmetric]) simp_all
    then have "(u', j) \<in> F" using inR' [OF b2(1)] in2 \<open>j2 = j\<close> by simp
    then show ?thesis using nb [OF oF] by (simp add: u'_def)
  qed
qed

lemma covers_halves:
  "covers p (Suc k) x \<longleftrightarrow> covers p k x \<or> covers (p + desc_block_size k) k x"
  by (auto simp: covers_def desc_block_size_Suc)

lemma covers_halves_disjoint:
  "\<not> (covers p k x \<and> covers (p + desc_block_size k) k x)"
  by (auto simp: covers_def)

lemma buddy_pair:
  assumes "desc_block_size k dvd off"
  defines "p \<equiv> min off (off XOR desc_block_size k)"
  shows "off = p \<and> off XOR desc_block_size k = p + desc_block_size k \<or>
         off = p + desc_block_size k \<and> off XOR desc_block_size k = p"
proof -
  define d where "d = desc_block_size k"
  obtain q where q: "off = d * q" using assms(1) by (auto simp: d_def)
  have d0: "0 < d" by (simp add: d_def)
  have dq: "off div d = q" using d0 by (simp add: q)
  have x: "off XOR d = (if even q then off + d else off - d)"
    using buddy_offset [OF assms(1)] by (simp add: d_def [symmetric] dq)
  show ?thesis
  proof (cases "even q")
    case True
    then show ?thesis by (simp add: x p_def d_def [symmetric])
  next
    case False
    then obtain r where r: "q = 2 * r + 1" by (auto elim!: oddE)
    have "d \<le> off" by (simp add: q r)
    then show ?thesis using False by (simp add: x p_def d_def [symmetric])
  qed
qed

text \<open>
  Blocks of a tiling can be replaced by others that cover the same bytes.
\<close>

lemma tiled_replace:
  assumes t: "tiled B" and X: "X \<subseteq> B"
    and wf: "\<forall>(off, k) \<in> Y. k < desc_cnt \<and> desc_block_size k dvd off \<and>
                off + desc_block_size k \<le> PGSIZE div 2"
    and same: "\<And>x. (\<exists>(off, k) \<in> X. covers off k x) \<longleftrightarrow> (\<exists>(off, k) \<in> Y. covers off k x)"
    and uy: "\<And>off k off' k' x. (off, k) \<in> Y \<Longrightarrow> (off', k') \<in> Y \<Longrightarrow> covers off k x \<Longrightarrow>
               covers off' k' x \<Longrightarrow> off = off' \<and> k = k'"
  shows "tiled ((B - X) \<union> Y)"
proof -
  have cov: "\<exists>u j. (u, j) \<in> B \<and> covers u j x" if "x < PGSIZE div 2" for x
    using t that by (auto simp: tiled_def)
  have uniq: "u = u' \<and> j = j'"
    if "(u, j) \<in> B" "(u', j') \<in> B" "covers u j x" "covers u' j' x" for u j u' j' x
    using t that unfolding tiled_def by blast
  have inX: "(u, j) \<in> X" if "(u, j) \<in> B" "covers u j x" "(u', j') \<in> X" "covers u' j' x"
    for u j u' j' x
    using uniq [OF that(1) _ that(2,4)] that(3) X by blast
  have c1: "\<forall>(off, k) \<in> B - X \<union> Y. k < desc_cnt \<and> desc_block_size k dvd off \<and>
                off + desc_block_size k \<le> PGSIZE div 2"
    using t wf by (auto simp: tiled_def)
  have c2: "\<exists>off k. (off, k) \<in> B - X \<union> Y \<and> covers off k x" if xl: "x < PGSIZE div 2" for x
  proof -
    obtain u j where b: "(u, j) \<in> B" "covers u j x" using cov [OF xl] by blast
    show ?thesis
    proof (cases "(u, j) \<in> X")
      case True
      then have "\<exists>(off, k) \<in> Y. covers off k x" using same [of x] b(2) by blast
      then show ?thesis by blast
    next
      case False
      then show ?thesis using b by blast
    qed
  qed
  have c3: "off = off' \<and> k = k'"
    if a: "(off, k) \<in> B - X \<union> Y" "(off', k') \<in> B - X \<union> Y" and c: "covers off k x" "covers off' k' x"
    for off k off' k' x
  proof -
    consider (bb) "(off, k) \<in> B - X" "(off', k') \<in> B - X"
      | (bY) "(off, k) \<in> B - X" "(off', k') \<in> Y"
      | (Yb) "(off, k) \<in> Y" "(off', k') \<in> B - X"
      | (YY) "(off, k) \<in> Y" "(off', k') \<in> Y"
      using a by blast
    then show ?thesis
    proof cases
      case bb
      then show ?thesis using uniq c by blast
    next
      case bY
      then obtain u j where "(u, j) \<in> X" "covers u j x" using same [of x] c(2) by blast
      then have "(off, k) \<in> X" using inX [of off k x u j] bY(1) c(1) by blast
      with bY(1) show ?thesis by simp
    next
      case Yb
      then obtain u j where "(u, j) \<in> X" "covers u j x" using same [of x] c(1) by blast
      then have "(off', k') \<in> X" using inX [of off' k' x u j] Yb(2) c(2) by blast
      with Yb(2) show ?thesis by simp
    next
      case YY
      then show ?thesis using uy c by blast
    qed
  qed
  show ?thesis
    unfolding tiled_def using c1 c2 c3 by blast
qed

lemma addr_inj:
  assumes "a mod PGSIZE = 0" and "a' mod PGSIZE = 0"
    and "off < PGSIZE div 2" and "off' < PGSIZE div 2"
    and "a + sizeof_arena + off = a' + sizeof_arena + off'"
  shows "a = a' \<and> off = off'"
proof -
  have "pg_round_down (a + (sizeof_arena + off)) = a"
    using assms(1,3) by (intro pg_round_down_payload) (simp_all add: sizeof_arena_eq PGSIZE_eq)
  moreover have "pg_round_down (a' + (sizeof_arena + off')) = a'"
    using assms(2,4) by (intro pg_round_down_payload) (simp_all add: sizeof_arena_eq PGSIZE_eq)
  moreover have "a + (sizeof_arena + off) = a' + (sizeof_arena + off')"
    using assms(5) by (simp only: add.assoc)
  ultimately have "a = a'" by metis
  then show ?thesis using assms(5) by simp
qed

lemma heap_inv_pages:
  assumes "heap_inv s h" and "a \<in> set (page_list s)"
  shows "a \<noteq> NULL" and "a mod PGSIZE = 0" and "magic (arena_at s a) = ARENA_MAGIC"
    and "arena_ok s h a"
  using assms by (auto simp: heap_inv_def pages_ok_def)

lemma blocks_wf:
  assumes "arena_ok s h a" and "(off, k) \<in> blocks s h a"
  shows "k < desc_cnt" and "desc_block_size k dvd off" and "off + desc_block_size k \<le> 2048"
    and "off < 2048" and "16 dvd off"
proof -
  have t: "tiled (blocks s h a)" using assms(1) by (simp add: arena_ok_def)
  then show w: "k < desc_cnt" "desc_block_size k dvd off" "off + desc_block_size k \<le> 2048"
    using assms(2) by (auto simp: tiled_def PGSIZE_eq)
  have "0 < desc_block_size k" by simp
  then show "off < 2048" using w(3) by linarith
  show "16 dvd off" using desc_block_size_dvd w(2) by (rule dvd_trans)
qed

lemma blocks_unique:
  assumes "arena_ok s h a" and "(off, k) \<in> blocks s h a" and "(off', k') \<in> blocks s h a"
    and "covers off k x" and "covers off' k' x"
  shows "off = off' \<and> k = k'"
  using assms unfolding arena_ok_def tiled_def by blast

lemma live_block_checks:
  assumes inv: "heap_inv s h" and a: "a \<in> set (page_list s)" and off: "16 dvd off" "off < 2048"
  shows "block_to_arena c s (a + sizeof_arena + off) = Inr a"
    and "slot_of a (a + sizeof_arena + off) = Inr (off div 16)"
proof -
  note p = heap_inv_pages [OF inv a]
  have "pg_round_down (a + (sizeof_arena + off)) = a"
    using p(2) off(2) by (intro pg_round_down_payload) (simp_all add: sizeof_arena_eq PGSIZE_eq)
  then show "block_to_arena c s (a + sizeof_arena + off) = Inr a"
    using p(1,3) by (simp add: block_to_arena_def ASSERT_def add.assoc)
  show "slot_of a (a + sizeof_arena + off) = Inr (off div 16)"
    using off(2) by (simp add: slot_of_Inr ARR_LEN_eq)
qed

lemma heap_inv_cong:
  assumes "page_list s' = page_list s" and "pool s' = pool s" and "free_list s' = free_list s"
    and "arena_at s' = arena_at s"
  shows "heap_inv s' h = heap_inv s h"
proof -
  have f: "free_at s' = free_at s" by (intro ext) (simp add: free_at_def assms)
  have l: "live_at s' = live_at s" by (intro ext) (simp add: live_at_def assms)
  have b: "blocks s' = blocks s" by (intro ext) (simp add: blocks_def f l)
  show ?thesis
    unfolding heap_inv_def pages_ok_def lists_ok_def arena_ok_def hole_ok_def f l b assms ..
qed

lemma blocks_other_arena:
  assumes "free_list s' = free_list s" and "arr (arena_at s' a) = arr (arena_at s a)"
    and "case h' of None \<Rightarrow> True | Some (x, u, j) \<Rightarrow> x \<noteq> a"
    and "case h of None \<Rightarrow> True | Some (x, u, j) \<Rightarrow> x \<noteq> a"
  shows "blocks s' h' a = blocks s h a"
  using assms by (auto simp: blocks_def free_at_def live_at_def split: option.splits)

lemma arena_ok_other:
  assumes "free_list s' = free_list s" and "arr (arena_at s' a) = arr (arena_at s a)"
    and "case h' of None \<Rightarrow> True | Some (x, u, j) \<Rightarrow> x \<noteq> a"
    and "case h of None \<Rightarrow> True | Some (x, u, j) \<Rightarrow> x \<noteq> a"
  shows "arena_ok s' h' a = arena_ok s h a"
  using blocks_other_arena [OF assms] assms(1,2)
  by (simp add: arena_ok_def free_at_def)

lemma live_not_free:
  assumes "arena_ok s h a" and "live_at s a off k"
  shows "\<not> free_at s a off k"
  using assms by (auto simp: arena_ok_def live_at_def desc_block_size_def)

text \<open>
  \<^verbatim>\<open>free\<close> up to its loop: the checks of a live block pass, its class is found, and the
  cleared block is the block in work.
\<close>

lemma free_entry_inv:
  fixes c :: config
  assumes inv: "heap_inv s None" and a: "a \<in> set (page_list s)" and live: "live_at s a off k"
  defines "p \<equiv> a + sizeof_arena + off"
  defines "s0 \<equiv> set_arr a (off div 16) 0
                  (if \<not> NDEBUG c then memset p 0xcc (desc_block_size k) s else s)"
  shows "free c s p = coalesce s0 a p (desc_block_size k) k"
    and "heap_inv s0 (Some (a, off, k))"
proof -
  have k: "k < desc_cnt" and off: "16 dvd off" "off < 2048"
    and e: "arr (arena_at s a) (off div 16) = int (desc_block_size k)"
    using live by (simp_all add: live_at_def PGSIZE_eq)
  have chk: "block_to_arena c s p = Inr a" "slot_of a p = Inr (off div 16)"
    using live_block_checks [OF inv a off] by (simp_all add: p_def)
  have pn: "p \<noteq> NULL" by (simp add: p_def NULL_def sizeof_arena_eq)
  show "free c s p = coalesce s0 a p (desc_block_size k) k"
    unfolding s0_def by (rule free_live_block [OF pn chk e k])
  define s1 where "s1 = set_arr a (off div 16) 0 s"
  have "heap_inv s0 (Some (a, off, k)) = heap_inv s1 (Some (a, off, k))"
    by (rule heap_inv_cong) (simp_all add: s0_def s1_def set_arr_def memset_def)
  moreover have "heap_inv s1 (Some (a, off, k))"
  proof -
    have pl: "page_list s1 = page_list s" "pool s1 = pool s" "free_list s1 = free_list s"
      by (simp_all add: s1_def set_arr_def)
    have mg: "magic (arena_at s1 x) = magic (arena_at s x)" for x by (simp add: s1_def)
    have ar: "arr (arena_at s1 x) = (if x = a then (arr (arena_at s a))(off div 16 := 0)
                                    else arr (arena_at s x))" for x
      by (simp add: s1_def set_arr_def)
    have fa: "free_at s1 x u j = free_at s x u j" for x u j
      by (simp add: free_at_def pl)
    note ok = heap_inv_pages(4) [OF inv a]
    have nf: "\<not> free_at s a off k" using live_not_free [OF ok live] .
    have la: "live_at s1 a u j \<longleftrightarrow> live_at s a u j \<and> (u, j) \<noteq> (off, k)" for u j
    proof (cases "u div 16 = off div 16")
      case True
      show ?thesis
      proof (cases "16 dvd u")
        case True
        with \<open>u div 16 = off div 16\<close> off(1) have "u = off" by (auto elim!: dvdE)
        then show ?thesis using e by (auto simp: live_at_def ar desc_block_size_inj)
      next
        case False
        then show ?thesis by (simp add: live_at_def)
      qed
    next
      case False
      then show ?thesis by (auto simp: live_at_def ar)
    qed
    have bl: "blocks s1 (Some (a, off, k)) a = blocks s None a"
      using live by (auto simp: blocks_def fa la)
    have p1: "pages_ok s1" using inv by (simp add: heap_inv_def pages_ok_def pl mg)
    have p2: "lists_ok s1" using inv by (simp add: heap_inv_def lists_ok_def pl)
    have p3: "arena_ok s1 (Some (a, off, k)) x" if x: "x \<in> set (page_list s)" for x
    proof (cases "x = a")
      case True
      have "arena_ok s None a" using ok .
      then show ?thesis
        unfolding True arena_ok_def bl by (auto simp: fa ar)
    next
      case False
      have "arena_ok s1 (Some (a, off, k)) x = arena_ok s None x"
        using False by (intro arena_ok_other) (simp_all add: pl ar)
      then show ?thesis using heap_inv_pages(4) [OF inv x] by simp
    qed
    have p4: "hole_ok s1 (Some (a, off, k))"
      using a nf by (simp add: hole_ok_def pl ar fa)
    show ?thesis using p1 p2 p3 p4 by (simp add: heap_inv_def pl)
  qed
  ultimately show "heap_inv s0 (Some (a, off, k))" by simp
qed

lemma hole_facts:
  assumes "heap_inv s (Some (a, off, k))"
  shows "a \<in> set (page_list s)" and "arena_ok s (Some (a, off, k)) a"
    and "(off, k) \<in> blocks s (Some (a, off, k)) a"
    and "k < desc_cnt" and "desc_block_size k dvd off" and "off + desc_block_size k \<le> 2048"
    and "arr (arena_at s a) (off div 16) = 0" and "\<not> free_at s a off k"
proof -
  show a: "a \<in> set (page_list s)" and "arr (arena_at s a) (off div 16) = 0"
    and "\<not> free_at s a off k"
    using assms by (simp_all add: heap_inv_def hole_ok_def)
  show ok: "arena_ok s (Some (a, off, k)) a" using assms a by (simp add: heap_inv_def)
  show b: "(off, k) \<in> blocks s (Some (a, off, k)) a" by (simp add: blocks_def)
  show "k < desc_cnt" and "desc_block_size k dvd off" and "off + desc_block_size k \<le> 2048"
    using blocks_wf [OF ok b] by simp_all
qed

text \<open>
  The three ways a round of the coalesce loop ends keep the invariant: the release of
  the arena, the push of the block, the merge with the buddy.
\<close>

lemma release_inv:
  assumes inv: "heap_inv s (Some (a, off, 7))"
  shows "heap_inv (release_arena a s) None"
proof -
  note h = hole_facts [OF inv]
  define s' where "s' = release_arena a s"
  have pl: "page_list s' = remove1 a (page_list s)" "pool s' = pool s @ [a]"
    "free_list s' = free_list s" "arena_at s' = arena_at s"
    by (simp_all add: s'_def release_arena_def)
  have off0: "off = 0" using h(6) by (simp add: desc_block_size_7)
  have po: "pages_ok s" and lo: "lists_ok s" using inv by (simp_all add: heap_inv_def)
  have dp: "distinct (page_list s)" using po by (simp add: pages_ok_def)
  have sp: "set (page_list s') = set (page_list s) - {a}" using dp by (simp add: pl)
  have p1: "pages_ok s'"
    using po h(1) unfolding pages_ok_def pl
    by (auto dest: notin_set_remove1)
  have nofree: "\<not> free_at s a u j" for u j
  proof
    assume f: "free_at s a u j"
    then have b: "(u, j) \<in> blocks s (Some (a, off, 7)) a" by (simp add: blocks_def)
    have "u < 2048" using f by (simp add: free_at_def PGSIZE_eq)
    then have "covers off 7 u" by (simp add: covers_def off0 desc_block_size_7)
    then have "off = u \<and> 7 = j" using blocks_unique [OF h(2) h(3) b] covers_self by blast
    with f h(8) show False by simp
  qed
  have p2a: "\<exists>x\<in>set (page_list s) - {a}. \<exists>u<PGSIZE div 2. b = x + sizeof_arena + u"
    if k: "k < desc_cnt" and b: "b \<in> set (free_list s k)" for k b
  proof -
    obtain x u where x: "x \<in> set (page_list s)" "u < PGSIZE div 2" "b = x + sizeof_arena + u"
      using lo k b unfolding lists_ok_def by blast
    have "x \<noteq> a" using nofree [of u k] x b k by (auto simp: free_at_def)
    then show ?thesis using x by blast
  qed
  have p2: "lists_ok s'"
    unfolding lists_ok_def pl using lo p2a dp by (simp add: lists_ok_def)
  have p3: "arena_ok s' None x" if x: "x \<in> set (page_list s')" for x
  proof -
    have xa: "x \<in> set (page_list s)" "x \<noteq> a" using x sp by simp_all
    have "arena_ok s' None x = arena_ok s (Some (a, off, 7)) x"
      using xa by (intro arena_ok_other) (simp_all add: pl)
    then show ?thesis using heap_inv_pages(4) [OF inv xa(1)] by simp
  qed
  show ?thesis
    unfolding s'_def [symmetric] heap_inv_def using p1 p2 p3 by (simp add: hole_ok_def)
qed

lemma xor_xor_nat: "(u XOR d) XOR d = (u::nat)"
  by (rule bit_eqI) (auto simp: bit_xor_iff)

lemma arena_ok_cong:
  assumes "\<And>u j. free_at s' a u j = free_at s a u j"
    and "arr (arena_at s' a) = arr (arena_at s a)"
    and "\<And>u j. (h' = Some (a, u, j)) = (h = Some (a, u, j))"
  shows "arena_ok s' h' a = arena_ok s h a"
proof -
  have l: "live_at s' a u j = live_at s a u j" for u j
    by (simp add: live_at_def assms(2))
  have b: "blocks s' h' a = blocks s h a"
    by (simp add: blocks_def assms(1,3) l)
  show ?thesis unfolding arena_ok_def b assms(2) assms(1) ..
qed

lemma nonzero_is_live:
  assumes ok: "arena_ok s h a" and i: "i < ARR_LEN" and nz: "arr (arena_at s a) i \<noteq> 0"
  shows "\<exists>j. live_at s a (16 * i) j"
proof -
  obtain k where k: "k < desc_cnt" "arr (arena_at s a) i = int (desc_block_size k)"
    using ok i nz unfolding arena_ok_def by blast
  have "live_at s a (16 * i) k"
    using k i by (simp add: live_at_def ARR_LEN_eq PGSIZE_eq)
  then show ?thesis ..
qed

lemma block_range_zero:
  assumes ok: "arena_ok s h a" and b: "(u, j) \<in> blocks s h a" and nl: "\<not> live_at s a u j"
    and lo: "u \<le> 16 * i" and hi: "16 * i < u + desc_block_size j"
  shows "arr (arena_at s a) i = 0"
proof (rule ccontr)
  assume nz: "arr (arena_at s a) i \<noteq> 0"
  have "u + desc_block_size j \<le> 2048" using blocks_wf(3) [OF ok b] .
  then have "i < ARR_LEN" using hi by (simp add: ARR_LEN_eq)
  then obtain j' where l: "live_at s a (16 * i) j'" using nonzero_is_live [OF ok _ nz] by blast
  then have b': "(16 * i, j') \<in> blocks s h a" by (simp add: blocks_def)
  have "covers u j (16 * i)" using lo hi by (simp add: covers_def)
  then have "16 * i = u \<and> j' = j" using blocks_unique [OF ok b' b covers_self] by blast
  with l nl show False by simp
qed

lemma buddy_in_use_iff:
  assumes "16 dvd boff" and "16 dvd d"
  shows "buddy_in_use s a boff d \<longleftrightarrow>
           (\<exists>i. boff \<le> 16 * i \<and> 16 * i < boff + d \<and> arr (arena_at s a) i \<noteq> 0)"
proof -
  obtain q where q: "boff = 16 * q" using assms(1) by (auto simp: dvd_def)
  obtain r where r: "d = 16 * r" using assms(2) by (auto simp: dvd_def)
  have "boff + d = 16 * (q + r)" by (simp add: q r)
  then have e: "(boff + d) div 16 = q + r" "boff div 16 = q" by (simp_all add: q)
  show ?thesis unfolding buddy_in_use_def list_ex_iff e
    by (auto simp: q r)
qed

lemma free_at_push_free:
  "free_at (push_free k b s) x u j \<longleftrightarrow>
     free_at s x u j \<or> (j = k \<and> k < desc_cnt \<and> u < PGSIZE div 2 \<and> x + sizeof_arena + u = b)"
  by (auto simp: free_at_def push_free_def)

lemma push_inv:
  assumes inv: "heap_inv s (Some (a, off, k))"
    and use: "buddy_in_use s a (off XOR desc_block_size k) (desc_block_size k)"
    and k7: "k < 7"
  shows "heap_inv (push_free k (a + sizeof_arena + off) s) None"
proof -
  note h = hole_facts [OF inv]
  define b where "b = a + sizeof_arena + off"
  define s' where "s' = push_free k b s"
  define boff where "boff = off XOR desc_block_size k"
  have sel: "page_list s' = page_list s" "pool s' = pool s" "arena_at s' = arena_at s"
    "free_list s' = (free_list s)(k := free_list s k @ [b])"
    by (simp_all add: s'_def push_free_def)
  have po: "pages_ok s" and lo: "lists_ok s" using inv by (simp_all add: heap_inv_def)
  have off: "off < 2048" "16 dvd off" using blocks_wf(4,5) [OF h(2) h(3)] .
  have am: "a mod PGSIZE = 0" using heap_inv_pages(2) [OF inv h(1)] .
  have fa: "free_at s' x u j \<longleftrightarrow> free_at s x u j \<or> (x, u, j) = (a, off, k)"
    if "x \<in> set (page_list s)" for x u j
  proof -
    have xm: "x mod PGSIZE = 0" using heap_inv_pages(2) [OF inv that] .
    have "u < PGSIZE div 2 \<and> x + sizeof_arena + u = b \<longleftrightarrow> x = a \<and> u = off"
      using addr_inj [OF xm am, of u off] off(1) by (auto simp: b_def PGSIZE_eq)
    then show ?thesis unfolding s'_def free_at_push_free using h(4) by auto
  qed
  have p1: "pages_ok s'" using po by (simp add: pages_ok_def sel)
  have nb: "b \<notin> set (free_list s k)"
    using h(8) h(4) off(1) by (simp add: free_at_def b_def PGSIZE_eq)
  have p2: "lists_ok s'"
    unfolding lists_ok_def sel
  proof (intro allI impI)
    fix j assume j: "j < desc_cnt"
    have d: "distinct (free_list s j)" using lo j by (simp add: lists_ok_def)
    have m: "\<forall>e\<in>set (free_list s j). \<exists>x\<in>set (page_list s). \<exists>u<PGSIZE div 2. e = x + sizeof_arena + u"
      using lo j by (simp add: lists_ok_def)
    have mb: "\<exists>x\<in>set (page_list s). \<exists>u<PGSIZE div 2. b = x + sizeof_arena + u"
      using h(1) off(1) by (auto simp: b_def PGSIZE_eq)
    show "distinct (((free_list s)(k := free_list s k @ [b])) j) \<and>
          (\<forall>e\<in>set (((free_list s)(k := free_list s k @ [b])) j).
              \<exists>x\<in>set (page_list s). \<exists>u<PGSIZE div 2. e = x + sizeof_arena + u)"
      using d m mb nb by auto
  qed
  have dv: "16 dvd boff" "16 dvd desc_block_size k"
    using buddy_in_range(1) [OF k7 h(5) off(1)] desc_block_size_dvd [of k]
    by (auto simp: boff_def dest: dvd_trans)
  have nfb: "\<not> free_at s a boff k"
  proof
    assume f: "free_at s a boff k"
    then have bl: "(boff, k) \<in> blocks s (Some (a, off, k)) a" by (simp add: blocks_def)
    have z: "arr (arena_at s a) (boff div 16) = 0"
      using h(2) f unfolding arena_ok_def by blast
    have nl: "\<not> live_at s a boff k" using z by (simp add: live_at_def)
    obtain i where i: "boff \<le> 16 * i" "16 * i < boff + desc_block_size k"
      "arr (arena_at s a) i \<noteq> 0"
      using use buddy_in_use_iff [OF dv] by (auto simp: boff_def)
    show False using block_range_zero [OF h(2) bl nl i(1,2)] i(3) by simp
  qed
  have ne: "boff \<noteq> off" using buddy_in_range(5) [OF k7 h(5) off(1)] by (simp add: boff_def)
  have p3: "arena_ok s' None x" if x: "x \<in> set (page_list s)" for x
  proof (cases "x = a")
    case False
    have "arena_ok s' None x = arena_ok s (Some (a, off, k)) x"
      using fa [OF x] False by (intro arena_ok_cong) (auto simp: sel)
    then show ?thesis using heap_inv_pages(4) [OF inv x] by simp
  next
    case True
    have l: "live_at s' a u j = live_at s a u j" for u j by (simp add: live_at_def sel)
    have bl: "blocks s' None a = blocks s (Some (a, off, k)) a"
      using fa [OF h(1)] by (auto simp: blocks_def l)
    have c1: "tiled (blocks s' None a)" using h(2) by (simp add: bl arena_ok_def)
    have c2: "\<forall>j<ARR_LEN. arr (arena_at s' a) j = 0 \<or>
                 (\<exists>k<desc_cnt. arr (arena_at s' a) j = int (desc_block_size k))"
      using h(2) by (simp add: arena_ok_def sel)
    have c3: "arr (arena_at s' a) (u div 16) = 0 \<and> \<not> free_at s' a (u XOR desc_block_size j) j"
      if f: "free_at s' a u j" for u j
    proof (cases "(u, j) = (off, k)")
      case True
      then show ?thesis using h(7) nfb ne fa [OF h(1)] by (auto simp: sel boff_def)
    next
      case False
      then have f0: "free_at s a u j" using f fa [OF h(1)] by auto
      then have z: "arr (arena_at s a) (u div 16) = 0" "\<not> free_at s a (u XOR desc_block_size j) j"
        using h(2) unfolding arena_ok_def by blast+
      have "(u XOR desc_block_size j, j) \<noteq> (off, k)"
      proof
        assume e: "(u XOR desc_block_size j, j) = (off, k)"
        then have "(u XOR desc_block_size k) XOR desc_block_size k = off XOR desc_block_size k"
          by auto
        then have "u = boff" unfolding xor_xor_nat by (simp add: boff_def)
        with e f0 nfb show False by auto
      qed
      then show ?thesis using z fa [OF h(1)] by (auto simp: sel)
    qed
    show ?thesis unfolding True arena_ok_def using c1 c2 c3 by blast
  qed
  have "heap_inv s' None"
    unfolding heap_inv_def using p1 p2 p3 by (simp add: hole_ok_def sel)
  then show ?thesis by (simp add: s'_def b_def)
qed

lemma free_at_unlink_free:
  assumes "distinct (free_list s k)"
  shows "free_at (unlink_free k b s) x u j \<longleftrightarrow>
     free_at s x u j \<and> \<not> (j = k \<and> x + sizeof_arena + u = b)"
  using assms by (auto simp: free_at_def unlink_free_def)

lemma merge_inv:
  assumes inv: "heap_inv s (Some (a, off, k))"
    and nuse: "\<not> buddy_in_use s a (off XOR desc_block_size k) (desc_block_size k)"
    and k7: "k < 7"
  defines "boff \<equiv> off XOR desc_block_size k"
  shows "remove_free (a + sizeof_arena + boff) s = Inr (unlink_free k (a + sizeof_arena + boff) s)"
    and "heap_inv (unlink_free k (a + sizeof_arena + boff) s) (Some (a, min off boff, Suc k))"
proof -
  note h = hole_facts [OF inv]
  define d where "d = desc_block_size k"
  define bb where "bb = a + sizeof_arena + boff"
  define p where "p = min off boff"
  define s' where "s' = unlink_free k bb s"
  define B where "B = blocks s (Some (a, off, k)) a"
  have sel: "page_list s' = page_list s" "pool s' = pool s" "arena_at s' = arena_at s"
    "free_list s' = (free_list s)(k := remove1 bb (free_list s k))"
    by (simp_all add: s'_def unlink_free_def)
  have po: "pages_ok s" and lo: "lists_ok s" using inv by (simp_all add: heap_inv_def)
  have off: "off < 2048" "16 dvd off" using blocks_wf(4,5) [OF h(2) h(3)] .
  have am: "a mod PGSIZE = 0" using heap_inv_pages(2) [OF inv h(1)] .
  have br: "d dvd boff" "boff + d \<le> 2048" "desc_block_size (Suc k) dvd p" "p < 2048" "boff \<noteq> off"
    using buddy_in_range [OF k7 h(5) off(1)] by (simp_all add: boff_def d_def p_def)
  have dpos: "0 < d" by (simp add: d_def)
  have bl: "boff < 2048" using br(2) dpos by simp
  have dv: "16 dvd boff" "16 dvd desc_block_size k"
    using br(1) desc_block_size_dvd [of k] by (auto simp: d_def dest: dvd_trans)
  have zero: "arr (arena_at s a) i = 0" if "boff \<le> 16 * i" "16 * i < boff + d" for i
    using nuse that buddy_in_use_iff [OF dv, of s a] by (auto simp: boff_def d_def)
  have pair: "off = p \<and> boff = p + d \<or> off = p + d \<and> boff = p"
    using buddy_pair [OF h(5)] by (simp add: p_def boff_def d_def)
  have kc: "k < desc_cnt" "Suc k < desc_cnt" using k7 by (simp_all add: desc_cnt_def)
  have "(off XOR desc_block_size k, k) \<in> {(u, j). free_at s a u j}"
  proof (rule tiled_buddy_free [where B = B])
    show "tiled B" using h(2) by (simp add: arena_ok_def B_def)
    show "(off, k) \<in> B" using h(3) by (simp add: B_def)
    show "k < 7" by fact
  next
    fix u j
    assume m: "(u, j) \<in> B" and lo': "off XOR desc_block_size k \<le> u"
      and hi': "u < (off XOR desc_block_size k) + desc_block_size k"
    have u16: "16 dvd u" using blocks_wf(5) [OF h(2)] m by (simp add: B_def)
    have z: "arr (arena_at s a) (u div 16) = 0"
      using zero [of "u div 16"] u16 lo' hi' by (simp add: boff_def d_def)
    have "\<not> live_at s a u j" using z by (simp add: live_at_def)
    moreover have "u \<noteq> off" using pair lo' hi' dpos by (auto simp: boff_def d_def)
    ultimately show "(u, j) \<in> {(u, j). free_at s a u j}"
      using m by (auto simp: B_def blocks_def)
  next
    fix u j
    assume "(u, j) \<in> {(u, j). free_at s a u j}"
    then show "(u XOR desc_block_size j, j) \<notin> {(u, j). free_at s a u j}"
      using h(2) unfolding arena_ok_def by blast
  qed
  then have fb: "free_at s a boff k" by (simp add: boff_def)
  then have bbk: "bb \<in> set (free_list s k)" by (simp add: free_at_def bb_def)
  have only: "j = k" if j: "j < desc_cnt" and m: "bb \<in> set (free_list s j)" for j
  proof -
    have "free_at s a boff j" using j m bl by (simp add: free_at_def bb_def PGSIZE_eq)
    then have "(boff, j) \<in> B" and "(boff, k) \<in> B" using fb by (simp_all add: B_def blocks_def)
    then show ?thesis using blocks_unique [OF h(2) _ _ covers_self covers_self] by (auto simp: B_def)
  qed
  have "remove_free bb s = Inr (s\<lparr>free_list := (free_list s)(k := remove1 bb (free_list s k))\<rparr>)"
    using only by (intro remove_free_only kc(1) bbk) blast
  then show "remove_free (a + sizeof_arena + boff) s = Inr (unlink_free k (a + sizeof_arena + boff) s)"
    by (simp add: bb_def unlink_free_def)
  have dk: "distinct (free_list s k)" using lo kc(1) by (simp add: lists_ok_def)
  have fa: "free_at s' x u j \<longleftrightarrow> free_at s x u j \<and> (x, u, j) \<noteq> (a, boff, k)"
    if "x \<in> set (page_list s)" for x u j
  proof -
    have xm: "x mod PGSIZE = 0" using heap_inv_pages(2) [OF inv that] .
    have e: "x + sizeof_arena + u = bb \<longleftrightarrow> x = a \<and> u = boff" if "u < PGSIZE div 2"
      using addr_inj [OF xm am, of u boff] bl that by (auto simp: bb_def PGSIZE_eq)
    show ?thesis unfolding s'_def free_at_unlink_free [OF dk]
      using e by (auto simp: free_at_def)
  qed
  have p1: "pages_ok s'" using po by (simp add: pages_ok_def sel)
  have p2: "lists_ok s'"
    unfolding lists_ok_def sel
  proof (intro allI impI)
    fix j assume j: "j < desc_cnt"
    have dj: "distinct (free_list s j)" using lo j by (simp add: lists_ok_def)
    have m: "\<forall>e\<in>set (free_list s j). \<exists>x\<in>set (page_list s). \<exists>u<PGSIZE div 2. e = x + sizeof_arena + u"
      using lo j by (simp add: lists_ok_def)
    show "distinct (((free_list s)(k := remove1 bb (free_list s k))) j) \<and>
          (\<forall>e\<in>set (((free_list s)(k := remove1 bb (free_list s k))) j).
              \<exists>x\<in>set (page_list s). \<exists>u<PGSIZE div 2. e = x + sizeof_arena + u)"
      using dj m by (auto dest: notin_set_remove1)
  qed
  have zp: "arr (arena_at s a) (p div 16) = 0"
  proof -
    have "arr (arena_at s a) (boff div 16) = 0"
      using zero [of "boff div 16"] dv(1) dpos by simp
    then show ?thesis using pair h(7) by (auto simp: p_def)
  qed
  have np: "\<not> free_at s a p (Suc k)"
  proof
    assume "free_at s a p (Suc k)"
    then have "(p, Suc k) \<in> B" by (simp add: B_def blocks_def)
    moreover have "covers p (Suc k) off" using parent_covers(1) [OF h(5)] by (simp add: p_def boff_def)
    ultimately show False
      using blocks_unique [OF h(2) _ h(3) _ covers_self, of p "Suc k"] by (simp add: B_def)
  qed
  have p4: "hole_ok s' (Some (a, p, Suc k))"
    using h(1) zp np fa [OF h(1)] by (simp add: hole_ok_def sel)
  have p3: "arena_ok s' (Some (a, p, Suc k)) x" if x: "x \<in> set (page_list s)" for x
  proof (cases "x = a")
    case False
    have "arena_ok s' (Some (a, p, Suc k)) x = arena_ok s (Some (a, off, k)) x"
      using fa [OF x] False by (intro arena_ok_cong) (auto simp: sel)
    then show ?thesis using heap_inv_pages(4) [OF inv x] by simp
  next
    case True
    have l: "live_at s' a u j = live_at s a u j" for u j by (simp add: live_at_def sel)
    have nlo: "\<not> live_at s a off k" using h(7) by (simp add: live_at_def)
    have nlb: "\<not> live_at s a boff k"
      using zero [of "boff div 16"] dv(1) dpos by (simp add: live_at_def)
    have bl': "blocks s' (Some (a, p, Suc k)) a = (B - {(off, k), (boff, k)}) \<union> {(p, Suc k)}"
      using fa [OF h(1)] nlo nlb h(8) unfolding blocks_def B_def l by auto
    have "tiled ((B - {(off, k), (boff, k)}) \<union> {(p, Suc k)})"
    proof (rule tiled_replace)
      show "tiled B" using h(2) by (simp add: arena_ok_def B_def)
      show "{(off, k), (boff, k)} \<subseteq> B" using h(3) fb by (simp add: B_def blocks_def)
      have "p + desc_block_size (Suc k) \<le> 2048"
        using pair br(2) h(6) by (auto simp: desc_block_size_Suc d_def)
      then show "\<forall>(off, k) \<in> {(p, Suc k)}. k < desc_cnt \<and> desc_block_size k dvd off \<and>
                off + desc_block_size k \<le> PGSIZE div 2"
        using kc(2) br(3) by (simp add: PGSIZE_eq)
    next
      fix x
      have "covers p (Suc k) x \<longleftrightarrow> covers off k x \<or> covers boff k x"
        unfolding covers_halves using pair by (auto simp: d_def)
      then show "(\<exists>(off, k) \<in> {(off, k), (boff, k)}. covers off k x) \<longleftrightarrow>
                 (\<exists>(off, k) \<in> {(p, Suc k)}. covers off k x)"
        by simp
    next
      fix u j u' j' x
      assume "(u, j) \<in> {(p, Suc k)}" "(u', j') \<in> {(p, Suc k)}"
      then show "u = u' \<and> j = j'" by simp
    qed
    then have c1: "tiled (blocks s' (Some (a, p, Suc k)) a)" by (simp add: bl')
    have c2: "\<forall>j<ARR_LEN. arr (arena_at s' a) j = 0 \<or>
                 (\<exists>k<desc_cnt. arr (arena_at s' a) j = int (desc_block_size k))"
      using h(2) by (simp add: arena_ok_def sel)
    have c3: "arr (arena_at s' a) (u div 16) = 0 \<and> \<not> free_at s' a (u XOR desc_block_size j) j"
      if f: "free_at s' a u j" for u j
    proof -
      have f0: "free_at s a u j" using f fa [OF h(1)] by auto
      then have z: "arr (arena_at s a) (u div 16) = 0" "\<not> free_at s a (u XOR desc_block_size j) j"
        using h(2) unfolding arena_ok_def by blast+
      then show ?thesis using fa [OF h(1)] by (auto simp: sel)
    qed
    show ?thesis unfolding True arena_ok_def using c1 c2 c3 by blast
  qed
  have "heap_inv s' (Some (a, p, Suc k))"
    unfolding heap_inv_def using p1 p2 p3 p4 by (simp add: sel)
  then show "heap_inv (unlink_free k (a + sizeof_arena + boff) s) (Some (a, min off boff, Suc k))"
    by (simp add: s'_def bb_def p_def)
qed

text \<open>
  The coalesce loop of the code does what the loop of the spec does, and ends in a state
  with no block in work.
\<close>

lemma coalesce_inv:
  assumes "heap_inv s (Some (a, off, k))"
  shows "coalesce s a (a + sizeof_arena + off) (desc_block_size k) k = Inr (coalesce_spec s a off k)
         \<and> heap_inv (coalesce_spec s a off k) None"
  using assms
proof (induction "7 - k" arbitrary: s off k)
  case 0
  note h = hole_facts [OF 0(2)]
  have k: "k = 7" using 0(1) h(4) by (simp add: desc_cnt_def)
  have sp: "coalesce_spec s a off k = release_arena a s"
    by (subst coalesce_spec.simps) (simp add: k desc_block_size_7 PGSIZE_eq)
  have "coalesce s a (a + sizeof_arena + off) (PGSIZE div 2) k = Inr (release_arena a s)"
    using h(1) by (rule coalesce_release)
  then have "coalesce s a (a + sizeof_arena + off) (desc_block_size k) k = Inr (release_arena a s)"
    by (simp add: k desc_block_size_7 PGSIZE_eq)
  moreover have "heap_inv (release_arena a s) None" using 0(2) unfolding k by (rule release_inv)
  ultimately show ?case by (simp add: sp)
next
  case (Suc n)
  note h = hole_facts [OF Suc(3)]
  have k7: "k < 7" using Suc(2) by simp
  define b where "b = a + sizeof_arena + off"
  define boff where "boff = off XOR desc_block_size k"
  have bo: "b - a - sizeof_arena = off" "a + sizeof_arena \<le> b" by (simp_all add: b_def)
  have "off < 2048" using blocks_wf(4) [OF h(2) h(3)] .
  then have lt: "b - a - sizeof_arena < PGSIZE div 2"
    unfolding bo by (simp add: PGSIZE_eq)
  have dv: "desc_block_size k dvd b - a - sizeof_arena" unfolding bo using h(5) .
  note cc = coalesce_class(1,2) [OF k7 bo(2) dv lt, where s = s, unfolded bo]
  have ns: "\<not> PGSIZE div 2 \<le> desc_block_size k"
    using desc_block_size_lt [OF k7] by (simp add: PGSIZE_eq)
  show ?case
  proof (cases "buddy_in_use s a boff (desc_block_size k)")
    case True
    have sp: "coalesce_spec s a off k = push_free k b s"
      by (subst coalesce_spec.simps) (simp add: ns True [unfolded boff_def] Let_def b_def)
    have "coalesce s a b (desc_block_size k) k = Inr (push_free k b s)"
      using cc(1) True by (simp add: boff_def)
    moreover have "heap_inv (push_free k b s) None"
      unfolding b_def using Suc(3) True [unfolded boff_def] k7 by (rule push_inv)
    ultimately show ?thesis by (simp add: sp b_def)
  next
    case False
    define s1 where "s1 = unlink_free k (a + sizeof_arena + boff) s"
    note m = merge_inv [OF Suc(3) False [unfolded boff_def] k7, folded boff_def]
    have sp: "coalesce_spec s a off k = coalesce_spec s1 a (min off boff) (Suc k)"
      by (subst coalesce_spec.simps) (simp add: ns False [unfolded boff_def] Let_def s1_def boff_def)
    have mn: "min b (a + sizeof_arena + boff) = a + sizeof_arena + min off boff"
      by (simp add: b_def min_def)
    have "coalesce s a b (desc_block_size k) k =
            coalesce s1 a (min b (a + sizeof_arena + boff)) (2 * desc_block_size k) (Suc k)"
      using cc(2) False m(1) by (simp add: boff_def s1_def)
    then have e: "coalesce s a b (desc_block_size k) k =
            coalesce s1 a (a + sizeof_arena + min off boff) (desc_block_size (Suc k)) (Suc k)"
      by (simp add: mn desc_block_size_Suc)
    have n: "n = 7 - Suc k" using Suc(2) by simp
    have "coalesce s1 a (a + sizeof_arena + min off boff) (desc_block_size (Suc k)) (Suc k) =
            Inr (coalesce_spec s1 a (min off boff) (Suc k)) \<and>
          heap_inv (coalesce_spec s1 a (min off boff) (Suc k)) None"
      using m(2) by (intro Suc(1) [OF n]) (simp add: s1_def)
    then show ?thesis using e by (simp add: sp b_def)
  qed
qed

lemma tiled_whole: "tiled {(0, 7)}"
  unfolding tiled_def
  by (simp add: desc_cnt_def desc_block_size_7 PGSIZE_eq covers_def)

text \<open>
  The two ways \<^verbatim>\<open>malloc\<close> finds a block, a pop from a free list and a new arena, make
  that block the block in work.
\<close>

lemma pop_inv:
  assumes inv: "heap_inv s None" and d: "d < desc_cnt" and ne: "free_list s d \<noteq> []"
    and b: "hd (free_list s d) = a + sizeof_arena + off" and a: "a \<in> set (page_list s)"
    and off: "off < 2048"
  shows "heap_inv (s\<lparr>free_list := (free_list s)(d := tl (free_list s d))\<rparr>) (Some (a, off, d))"
proof -
  define bb where "bb = a + sizeof_arena + off"
  define s' where "s' = s\<lparr>free_list := (free_list s)(d := tl (free_list s d))\<rparr>"
  have po: "pages_ok s" and lo: "lists_ok s" using inv by (simp_all add: heap_inv_def)
  have dk: "distinct (free_list s d)" using lo d by (simp add: lists_ok_def)
  have tl: "tl (free_list s d) = remove1 bb (free_list s d)"
    using ne b by (cases "free_list s d") (simp_all add: bb_def)
  have s'u: "s' = unlink_free d bb s" by (simp add: s'_def unlink_free_def tl)
  have sel: "page_list s' = page_list s" "pool s' = pool s" "arena_at s' = arena_at s"
    "free_list s' = (free_list s)(d := remove1 bb (free_list s d))"
    by (simp_all add: s'u unlink_free_def)
  have am: "a mod PGSIZE = 0" using heap_inv_pages(2) [OF inv a] .
  have ok: "arena_ok s None a" using heap_inv_pages(4) [OF inv a] .
  have fb: "free_at s a off d"
    using ne b d off hd_in_set [OF ne] by (simp add: free_at_def PGSIZE_eq)
  have fa: "free_at s' x u j \<longleftrightarrow> free_at s x u j \<and> (x, u, j) \<noteq> (a, off, d)"
    if "x \<in> set (page_list s)" for x u j
  proof -
    have xm: "x mod PGSIZE = 0" using heap_inv_pages(2) [OF inv that] .
    have e: "x + sizeof_arena + u = bb \<longleftrightarrow> x = a \<and> u = off" if "u < PGSIZE div 2"
      using addr_inj [OF xm am, of u off] off that by (auto simp: bb_def PGSIZE_eq)
    show ?thesis unfolding s'u free_at_unlink_free [OF dk]
      using e by (auto simp: free_at_def)
  qed
  have p1: "pages_ok s'" using po by (simp add: pages_ok_def sel)
  have p2: "lists_ok s'"
    unfolding lists_ok_def sel
  proof (intro allI impI)
    fix j assume j: "j < desc_cnt"
    have dj: "distinct (free_list s j)" using lo j by (simp add: lists_ok_def)
    have m: "\<forall>e\<in>set (free_list s j). \<exists>x\<in>set (page_list s). \<exists>u<PGSIZE div 2. e = x + sizeof_arena + u"
      using lo j by (simp add: lists_ok_def)
    show "distinct (((free_list s)(d := remove1 bb (free_list s d))) j) \<and>
          (\<forall>e\<in>set (((free_list s)(d := remove1 bb (free_list s d))) j).
              \<exists>x\<in>set (page_list s). \<exists>u<PGSIZE div 2. e = x + sizeof_arena + u)"
      using dj m by (auto dest: notin_set_remove1)
  qed
  have z: "arr (arena_at s a) (off div 16) = 0"
    using ok fb unfolding arena_ok_def by blast
  have p4: "hole_ok s' (Some (a, off, d))"
    using a z fa [OF a] by (simp add: hole_ok_def sel)
  have p3: "arena_ok s' (Some (a, off, d)) x" if x: "x \<in> set (page_list s)" for x
  proof (cases "x = a")
    case False
    have "arena_ok s' (Some (a, off, d)) x = arena_ok s None x"
      using fa [OF x] False by (intro arena_ok_cong) (auto simp: sel)
    then show ?thesis using heap_inv_pages(4) [OF inv x] by simp
  next
    case True
    have l: "live_at s' a u j = live_at s a u j" for u j by (simp add: live_at_def sel)
    have bl: "blocks s' (Some (a, off, d)) a = blocks s None a"
      using fa [OF a] fb unfolding blocks_def l by auto
    have c1: "tiled (blocks s' (Some (a, off, d)) a)" using ok by (simp add: bl arena_ok_def)
    have c2: "\<forall>j<ARR_LEN. arr (arena_at s' a) j = 0 \<or>
                 (\<exists>k<desc_cnt. arr (arena_at s' a) j = int (desc_block_size k))"
      using ok by (simp add: arena_ok_def sel)
    have c3: "arr (arena_at s' a) (u div 16) = 0 \<and> \<not> free_at s' a (u XOR desc_block_size j) j"
      if f: "free_at s' a u j" for u j
    proof -
      have f0: "free_at s a u j" using f fa [OF a] by auto
      then have "arr (arena_at s a) (u div 16) = 0" "\<not> free_at s a (u XOR desc_block_size j) j"
        using ok unfolding arena_ok_def by blast+
      then show ?thesis using fa [OF a] by (auto simp: sel)
    qed
    show ?thesis unfolding True arena_ok_def using c1 c2 c3 by blast
  qed
  have "heap_inv s' (Some (a, off, d))"
    unfolding heap_inv_def using p1 p2 p3 p4 by (simp add: sel)
  then show ?thesis by (simp add: s'_def)
qed

lemma refill_inv:
  assumes inv: "heap_inv s None" and pl: "pool s = a # ps"
  shows "heap_inv (s\<lparr>pool := ps, page_list := page_list s @ [a],
            arena_at := (arena_at s)(a := \<lparr>magic = ARENA_MAGIC, arr = (\<lambda>i. 0)\<rparr>)\<rparr>)
           (Some (a, 0, 7))"
proof -
  define s' where "s' = s\<lparr>pool := ps, page_list := page_list s @ [a],
            arena_at := (arena_at s)(a := \<lparr>magic = ARENA_MAGIC, arr = (\<lambda>i. 0)\<rparr>)\<rparr>"
  have sel: "page_list s' = page_list s @ [a]" "pool s' = ps" "free_list s' = free_list s"
    "arena_at s' = (arena_at s)(a := \<lparr>magic = ARENA_MAGIC, arr = (\<lambda>i. 0)\<rparr>)"
    by (simp_all add: s'_def)
  have po: "pages_ok s" and lo: "lists_ok s" using inv by (simp_all add: heap_inv_def)
  have an: "a \<notin> set (page_list s)" "a \<noteq> NULL" "a mod PGSIZE = 0"
    using po pl by (auto simp: pages_ok_def)
  have p1: "pages_ok s'" using po pl an unfolding pages_ok_def sel by auto
  have p2: "lists_ok s'" using lo unfolding lists_ok_def sel by auto
  have nf: "\<not> free_at s a u j" for u j
  proof
    assume f: "free_at s a u j"
    then obtain x v where x: "x \<in> set (page_list s)" "v < PGSIZE div 2"
      "a + sizeof_arena + u = x + sizeof_arena + v"
      using lo unfolding lists_ok_def free_at_def by blast
    have xm: "x mod PGSIZE = 0" using heap_inv_pages(2) [OF inv x(1)] .
    have "a = x" using addr_inj [OF an(3) xm _ x(2,3)] f by (simp add: free_at_def)
    with x(1) an(1) show False by simp
  qed
  have fa: "free_at s' x u j = free_at s x u j" for x u j by (simp add: free_at_def sel)
  have p4: "hole_ok s' (Some (a, 0, 7))" using nf by (simp add: hole_ok_def sel fa)
  have p3: "arena_ok s' (Some (a, 0, 7)) x" if x: "x \<in> set (page_list s @ [a])" for x
  proof (cases "x = a")
    case False
    then have xo: "x \<in> set (page_list s)" using x by simp
    have "arena_ok s' (Some (a, 0, 7)) x = arena_ok s None x"
      using False by (intro arena_ok_cong) (auto simp: sel fa)
    then show ?thesis using heap_inv_pages(4) [OF inv xo] by simp
  next
    case True
    have l: "\<not> live_at s' a u j" for u j by (simp add: live_at_def sel)
    have bl: "blocks s' (Some (a, 0, 7)) a = {(0, 7)}"
      using nf unfolding blocks_def by (auto simp: l fa)
    show ?thesis unfolding True arena_ok_def bl using tiled_whole nf by (simp add: sel fa)
  qed
  have "heap_inv s' (Some (a, 0, 7))"
    unfolding heap_inv_def using p1 p2 p3 p4 by (simp add: sel)
  then show ?thesis by (simp add: s'_def)
qed

lemma free_entry_checks:
  assumes inv: "heap_inv s None" and d: "d < desc_cnt" and b: "b \<in> set (free_list s d)"
  shows "\<exists>a off. a \<in> set (page_list s) \<and> off < 2048 \<and> 16 dvd off \<and> b = a + sizeof_arena + off \<and>
           block_to_arena c s b = Inr a \<and> slot_of a b = Inr (off div 16)"
proof -
  have lo: "lists_ok s" using inv by (simp add: heap_inv_def)
  obtain a off where a: "a \<in> set (page_list s)" and off: "off < PGSIZE div 2"
    and e: "b = a + sizeof_arena + off"
    using lo d b unfolding lists_ok_def by blast
  have "free_at s a off d" using d b off e by (simp add: free_at_def)
  then have "(off, d) \<in> blocks s None a" by (simp add: blocks_def)
  note w = blocks_wf [OF heap_inv_pages(4) [OF inv a] this]
  have "block_to_arena c s (a + sizeof_arena + off) = Inr a"
    and "slot_of a (a + sizeof_arena + off) = Inr (off div 16)"
    using live_block_checks [OF inv a w(5) w(4)] by simp_all
  then show ?thesis using a w(4,5) e by blast
qed

lemma scan_inv:
  assumes inv: "heap_inv s None" and sc: "malloc_scan c s n d0 = Inr (Some (d, b, a), s1)"
    and n: "n \<le> 2048"
  shows "\<exists>off. b = a + sizeof_arena + off \<and> heap_inv s1 (Some (a, off, d)) \<and>
           n \<le> desc_block_size d"
proof -
  note r = malloc_scan_result [OF sc n]
  then have d: "d < desc_cnt" "n \<le> desc_block_size d" by simp_all
  from r consider
    (pop) "free_list s d \<noteq> []" "b = hd (free_list s d)" "block_to_arena c s b = Inr a"
        "s1 = s\<lparr>free_list := (free_list s)(d := tl (free_list s d))\<rparr>"
    | (refill) "d = 7" "b = a + sizeof_arena" "pool s = a # pool s1"
        "s1 = s\<lparr>pool := pool s1, page_list := page_list s @ [a],
                   arena_at := (arena_at s)(a := \<lparr>magic = ARENA_MAGIC, arr = (\<lambda>i. 0)\<rparr>)\<rparr>"
    by blast
  then show ?thesis
  proof cases
    case pop
    have "b \<in> set (free_list s d)" using pop(1,2) by simp
    from free_entry_checks [OF inv d(1) this, of c] pop(3)
    obtain off where o: "a \<in> set (page_list s)" "off < 2048" "b = a + sizeof_arena + off"
      by auto
    have "heap_inv s1 (Some (a, off, d))"
      unfolding pop(4) using inv d(1) pop(1) _ o(1,2)
      by (rule pop_inv) (simp add: pop(2) [symmetric] o(3))
    then show ?thesis using o(3) d(2) by blast
  next
    case refill
    have "heap_inv s1 (Some (a, 0, 7))"
      by (subst refill(4)) (rule refill_inv [OF inv refill(3)])
    then show ?thesis using refill(1,2) d(2) by auto
  qed
qed

lemma upper_half_buddy:
  assumes "desc_block_size (Suc j) dvd off"
  shows "(off + desc_block_size j) XOR desc_block_size j = off"
proof -
  define d where "d = desc_block_size j"
  have d: "0 < d" by (simp add: d_def)
  obtain q where q: "off = 2 * d * q" using assms by (auto simp: desc_block_size_Suc d_def dvd_def)
  have dv: "d dvd off + d" by (simp add: q)
  have "(off + d) div d = 2 * q + 1" using d by (simp add: q)
  then have "odd ((off + d) div d)" by simp
  then show ?thesis
    using buddy_offset [of j "off + desc_block_size j"] dv by (simp add: d_def)
qed

text \<open>
  A round of the split loop halves the block in work and frees its upper half.
\<close>

lemma split_step_inv:
  assumes inv: "heap_inv s (Some (a, off, Suc j))"
  shows "heap_inv (push_free j (a + sizeof_arena + off + desc_block_size j) s) (Some (a, off, j))"
proof -
  note h = hole_facts [OF inv]
  define d where "d = desc_block_size j"
  define u1 where "u1 = off + d"
  define bb where "bb = a + sizeof_arena + u1"
  define s' where "s' = push_free j bb s"
  define B where "B = blocks s (Some (a, off, Suc j)) a"
  have sel: "page_list s' = page_list s" "pool s' = pool s" "arena_at s' = arena_at s"
    "free_list s' = (free_list s)(j := free_list s j @ [bb])"
    by (simp_all add: s'_def push_free_def)
  have po: "pages_ok s" and lo: "lists_ok s" using inv by (simp_all add: heap_inv_def)
  have dpos: "0 < d" by (simp add: d_def)
  have d2: "desc_block_size (Suc j) = 2 * d" by (simp add: desc_block_size_Suc d_def)
  have jc: "j < desc_cnt" using h(4) by simp
  have am: "a mod PGSIZE = 0" using heap_inv_pages(2) [OF inv h(1)] .
  have hB: "(off, Suc j) \<in> B" using h(3) by (simp add: B_def)
  have u1: "u1 < 2048" "u1 + d \<le> 2048" "off + d \<le> 2048" "off < 2048"
    using h(6) dpos by (simp_all add: u1_def d2)
  have dvo: "d dvd off" using h(5) unfolding d2 by (rule dvd_mult_right)
  have dvu: "d dvd u1" using dvo by (simp add: u1_def)
  have d16: "16 dvd d" using desc_block_size_dvd [of j] by (simp add: d_def)
  have u16: "16 dvd u1" using d16 dvu by (rule dvd_trans)
  have cu: "covers off (Suc j) u1" using dpos by (simp add: covers_def u1_def d2)
  have nfu: "\<not> free_at s a u1 j"
  proof
    assume "free_at s a u1 j"
    then have "(u1, j) \<in> B" by (simp add: B_def blocks_def)
    then show False
      using blocks_unique [OF h(2) _ h(3) covers_self cu, of j] by (simp add: B_def)
  qed
  have nfo: "\<not> free_at s a off j"
  proof
    assume "free_at s a off j"
    then have "(off, j) \<in> B" by (simp add: B_def blocks_def)
    then show False
      using blocks_unique [OF h(2) _ h(3) covers_self covers_self, of j] by (simp add: B_def)
  qed
  have nlh: "\<not> live_at s a off (Suc j)" using h(7) by (simp add: live_at_def)
  have fa: "free_at s' x u k \<longleftrightarrow> free_at s x u k \<or> (x, u, k) = (a, u1, j)"
    if "x \<in> set (page_list s)" for x u k
  proof -
    have xm: "x mod PGSIZE = 0" using heap_inv_pages(2) [OF inv that] .
    have "u < PGSIZE div 2 \<and> x + sizeof_arena + u = bb \<longleftrightarrow> x = a \<and> u = u1"
      using addr_inj [OF xm am, of u u1] u1(1) by (auto simp: bb_def PGSIZE_eq)
    then show ?thesis unfolding s'_def free_at_push_free using jc by auto
  qed
  have p1: "pages_ok s'" using po by (simp add: pages_ok_def sel)
  have nb: "bb \<notin> set (free_list s j)"
    using nfu jc u1(1) by (simp add: free_at_def bb_def PGSIZE_eq)
  have p2: "lists_ok s'"
    unfolding lists_ok_def sel
  proof (intro allI impI)
    fix i assume i: "i < desc_cnt"
    have di: "distinct (free_list s i)" using lo i by (simp add: lists_ok_def)
    have m: "\<forall>e\<in>set (free_list s i). \<exists>x\<in>set (page_list s). \<exists>u<PGSIZE div 2. e = x + sizeof_arena + u"
      using lo i by (simp add: lists_ok_def)
    have mb: "\<exists>x\<in>set (page_list s). \<exists>u<PGSIZE div 2. bb = x + sizeof_arena + u"
      using h(1) u1(1) by (auto simp: bb_def PGSIZE_eq)
    show "distinct (((free_list s)(j := free_list s j @ [bb])) i) \<and>
          (\<forall>e\<in>set (((free_list s)(j := free_list s j @ [bb])) i).
              \<exists>x\<in>set (page_list s). \<exists>u<PGSIZE div 2. e = x + sizeof_arena + u)"
      using di m mb nb by auto
  qed
  have ne: "u1 \<noteq> off" using dpos by (simp add: u1_def)
  have p4: "hole_ok s' (Some (a, off, j))"
    using h(1) h(7) nfo ne fa [OF h(1)] by (simp add: hole_ok_def sel)
  have bud: "u1 XOR desc_block_size j = off"
    using upper_half_buddy [OF h(5)] by (simp add: u1_def d_def)
  have p3: "arena_ok s' (Some (a, off, j)) x" if x: "x \<in> set (page_list s)" for x
  proof (cases "x = a")
    case False
    have "arena_ok s' (Some (a, off, j)) x = arena_ok s (Some (a, off, Suc j)) x"
      using fa [OF x] False by (intro arena_ok_cong) (auto simp: sel)
    then show ?thesis using heap_inv_pages(4) [OF inv x] by simp
  next
    case True
    have l: "live_at s' a u k = live_at s a u k" for u k by (simp add: live_at_def sel)
    have bl': "blocks s' (Some (a, off, j)) a = (B - {(off, Suc j)}) \<union> {(off, j), (u1, j)}"
      using fa [OF h(1)] nlh h(8) unfolding blocks_def B_def l by auto
    have "tiled ((B - {(off, Suc j)}) \<union> {(off, j), (u1, j)})"
    proof (rule tiled_replace)
      show "tiled B" using h(2) by (simp add: arena_ok_def B_def)
      show "{(off, Suc j)} \<subseteq> B" using hB by simp
      show "\<forall>(off, k) \<in> {(off, j), (u1, j)}. k < desc_cnt \<and> desc_block_size k dvd off \<and>
                off + desc_block_size k \<le> PGSIZE div 2"
        using jc dvo dvu u1 by (simp add: PGSIZE_eq d_def)
    next
      fix x
      have "covers off (Suc j) x \<longleftrightarrow> covers off j x \<or> covers u1 j x"
        unfolding covers_halves by (simp add: u1_def d_def)
      then show "(\<exists>(off, k) \<in> {(off, Suc j)}. covers off k x) \<longleftrightarrow>
                 (\<exists>(off, k) \<in> {(off, j), (u1, j)}. covers off k x)"
        by auto
    next
      fix u k u' k' x
      assume "(u, k) \<in> {(off, j), (u1, j)}" "(u', k') \<in> {(off, j), (u1, j)}"
        "covers u k x" "covers u' k' x"
      then show "u = u' \<and> k = k'"
        using covers_halves_disjoint [of off j x] by (auto simp: u1_def d_def)
    qed
    then have c1: "tiled (blocks s' (Some (a, off, j)) a)" by (simp add: bl')
    have c2: "\<forall>i<ARR_LEN. arr (arena_at s' a) i = 0 \<or>
                 (\<exists>k<desc_cnt. arr (arena_at s' a) i = int (desc_block_size k))"
      using h(2) by (simp add: arena_ok_def sel)
    have zu: "arr (arena_at s a) (u1 div 16) = 0"
    proof (rule block_range_zero [OF h(2) h(3) nlh])
      show "off \<le> 16 * (u1 div 16)" using u16 by (simp add: u1_def)
      show "16 * (u1 div 16) < off + desc_block_size (Suc j)"
        using u16 dpos by (simp add: u1_def d2)
    qed
    have c3: "arr (arena_at s' a) (u div 16) = 0 \<and> \<not> free_at s' a (u XOR desc_block_size k) k"
      if f: "free_at s' a u k" for u k
    proof (cases "(u, k) = (u1, j)")
      case True
      then show ?thesis using zu nfo ne fa [OF h(1)] by (auto simp: sel bud)
    next
      case False
      then have f0: "free_at s a u k" using f fa [OF h(1)] by auto
      then have z: "arr (arena_at s a) (u div 16) = 0" "\<not> free_at s a (u XOR desc_block_size k) k"
        using h(2) unfolding arena_ok_def by blast+
      have "(u XOR desc_block_size k, k) \<noteq> (u1, j)"
      proof
        assume e: "(u XOR desc_block_size k, k) = (u1, j)"
        then have "(u XOR desc_block_size j) XOR desc_block_size j = u1 XOR desc_block_size j"
          by auto
        then have "u = off" unfolding xor_xor_nat bud .
        with e f0 nfo show False by auto
      qed
      then show ?thesis using z fa [OF h(1)] by (auto simp: sel)
    qed
    show ?thesis unfolding True arena_ok_def using c1 c2 c3 by blast
  qed
  have "heap_inv s' (Some (a, off, j))"
    unfolding heap_inv_def using p1 p2 p3 p4 by (simp add: sel)
  then show ?thesis by (simp add: s'_def bb_def u1_def d_def add.assoc)
qed

lemma split_inv:
  assumes "heap_inv s (Some (a, off, d))" and "malloc_split s n d (a + sizeof_arena + off) = (d', s')"
  shows "heap_inv s' (Some (a, off, d'))"
  using assms
proof (induction s n d "a + sizeof_arena + off" arbitrary: rule: malloc_split.induct)
  case (1 s size' d)
  show ?case
  proof (cases "desc_block_size d \<noteq> 16 \<and> 2 * size' \<le> desc_block_size d")
    case False
    then have "malloc_split s size' d (a + sizeof_arena + off) = (d, s)"
      by (subst malloc_split.simps) auto
    with "1.prems" show ?thesis by simp
  next
    case True
    then have d0: "d \<noteq> 0" by (auto simp: desc_block_size_16)
    then obtain j where j: "d = Suc j" by (cases d) simp_all
    define s1 where "s1 = push_free (d - 1) (a + sizeof_arena + off + desc_block_size (d - 1)) s"
    have e: "malloc_split s size' d (a + sizeof_arena + off) =
               malloc_split s1 size' (d - 1) (a + sizeof_arena + off)"
      using True by (subst malloc_split.simps) (simp add: s1_def)
    have i1: "heap_inv s1 (Some (a, off, d - 1))"
      using split_step_inv [of s a off j] "1.prems"(1) by (simp add: j s1_def)
    show ?thesis
      using "1.hyps" [OF _ _ i1 [unfolded s1_def]] True "1.prems"(2) e
      by (simp add: s1_def)
  qed
qed

text \<open>
  Writing the slot-map entry makes the block in work a live block.
\<close>

lemma finish_inv:
  assumes inv: "heap_inv s (Some (a, off, k))"
  defines "s' \<equiv> set_arr a (off div 16) (int (desc_block_size k)) s"
  shows "heap_inv s' None" and "live_at s' a off k" and "a \<in> set (page_list s')"
proof -
  note h = hole_facts [OF inv]
  define B where "B = blocks s (Some (a, off, k)) a"
  have sel: "page_list s' = page_list s" "pool s' = pool s" "free_list s' = free_list s"
    "\<And>x. x \<noteq> a \<Longrightarrow> arena_at s' x = arena_at s x"
    "magic (arena_at s' a) = magic (arena_at s a)"
    "arr (arena_at s' a) = (arr (arena_at s a))(off div 16 := int (desc_block_size k))"
    by (simp_all add: s'_def set_arr_def)
  have po: "pages_ok s" and lo: "lists_ok s" using inv by (simp_all add: heap_inv_def)
  have off: "off < 2048" "16 dvd off" using blocks_wf(4,5) [OF h(2) h(3)] .
  have fa: "free_at s' x u j = free_at s x u j" for x u j by (simp add: free_at_def sel)
  have p1: "pages_ok s'"
    using po unfolding pages_ok_def sel(1,2)
    by (metis sel(4,5))
  have p2: "lists_ok s'" using lo by (simp add: lists_ok_def sel)
  show pa: "a \<in> set (page_list s')" using h(1) by (simp add: sel)
  have same16: "u = off" if "16 dvd u" "u div 16 = off div 16" for u
    using that off(2) by (metis dvd_div_eq_iff)
  have la: "live_at s' a u j \<longleftrightarrow> live_at s a u j \<or> (u, j) = (off, k)" for u j
  proof
    assume l: "live_at s' a u j"
    show "live_at s a u j \<or> (u, j) = (off, k)"
    proof (cases "u div 16 = off div 16")
      case True
      then have "u = off" using l same16 by (simp add: live_at_def)
      moreover have "j = k" using l True by (simp add: live_at_def sel desc_block_size_inj)
      ultimately show ?thesis by simp
    next
      case False
      then show ?thesis using l by (simp add: live_at_def sel)
    qed
  next
    assume "live_at s a u j \<or> (u, j) = (off, k)"
    then show "live_at s' a u j"
    proof
      assume l: "live_at s a u j"
      then have "u div 16 \<noteq> off div 16" using h(7) by (auto simp: live_at_def)
      then show ?thesis using l by (simp add: live_at_def sel)
    next
      assume "(u, j) = (off, k)"
      then show ?thesis using off h(4) by (simp add: live_at_def sel PGSIZE_eq)
    qed
  qed
  show "live_at s' a off k" by (simp add: la)
  have p3: "arena_ok s' None x" if x: "x \<in> set (page_list s)" for x
  proof (cases "x = a")
    case False
    have "arena_ok s' None x = arena_ok s (Some (a, off, k)) x"
      using False by (intro arena_ok_cong) (auto simp: sel fa)
    then show ?thesis using heap_inv_pages(4) [OF inv x] by simp
  next
    case True
    have bl: "blocks s' None a = B" unfolding blocks_def B_def la fa by auto
    have c1: "tiled (blocks s' None a)" using h(2) by (simp add: bl arena_ok_def B_def)
    have c2: "\<forall>i<ARR_LEN. arr (arena_at s' a) i = 0 \<or>
                 (\<exists>k<desc_cnt. arr (arena_at s' a) i = int (desc_block_size k))"
      using h(2) h(4) unfolding arena_ok_def sel by auto
    have c3: "arr (arena_at s' a) (u div 16) = 0 \<and> \<not> free_at s' a (u XOR desc_block_size j) j"
      if f: "free_at s' a u j" for u j
    proof -
      have f0: "free_at s a u j" using f by (simp add: fa)
      then have z: "arr (arena_at s a) (u div 16) = 0" "\<not> free_at s a (u XOR desc_block_size j) j"
        using h(2) unfolding arena_ok_def by blast+
      have m: "(u, j) \<in> blocks s (Some (a, off, k)) a" using f0 by (simp add: blocks_def)
      have "u div 16 \<noteq> off div 16"
      proof
        assume "u div 16 = off div 16"
        then have "u = off" using same16 blocks_wf(5) [OF h(2) m] by simp
        then have "j = k" using blocks_unique [OF h(2) m h(3) covers_self] covers_self by simp
        with f0 h(8) \<open>u = off\<close> show False by simp
      qed
      then show ?thesis using z by (simp add: sel fa)
    qed
    show ?thesis unfolding True arena_ok_def using c1 c2 c3 by blast
  qed
  show "heap_inv s' None"
    unfolding heap_inv_def using p1 p2 p3 by (simp add: sel hole_ok_def)
qed

text \<open>
  \<^verbatim>\<open>malloc\<close> keeps the invariant, and a block it returns is live and large enough.
\<close>

lemma malloc_inv:
  assumes inv: "heap_inv s None" and m: "malloc c s n = Inr (p, s')"
  shows "heap_inv s' None"
    and "p \<noteq> NULL \<Longrightarrow> \<exists>a off k. a \<in> set (page_list s') \<and> live_at s' a off k \<and>
            p = a + sizeof_arena + off \<and> n \<le> desc_block_size k"
proof -
  have "heap_inv s' None \<and> (p \<noteq> NULL \<longrightarrow> (\<exists>a off k. a \<in> set (page_list s') \<and>
          live_at s' a off k \<and> p = a + sizeof_arena + off \<and> n \<le> desc_block_size k))"
    using malloc_Inr [OF m]
  proof
    assume "p = NULL \<and> s' = s"
    then show ?thesis using inv by simp
  next
    assume r: "p \<noteq> NULL \<and> 0 < n \<and> n \<le> 2048 \<and>
         (\<exists>d a s1 d' s2 i.
            malloc_scan c s n 0 = Inr (Some (d, p, a), s1) \<and>
            malloc_split s1 n d p = (d', s2) \<and> slot_of a p = Inr i \<and>
            s' = set_arr a i (int (desc_block_size d')) s2)"
    then obtain d a s1 d' s2 i where n: "n \<le> 2048"
      and sc: "malloc_scan c s n 0 = Inr (Some (d, p, a), s1)"
      and sp: "malloc_split s1 n d p = (d', s2)" and i: "slot_of a p = Inr i"
      and s': "s' = set_arr a i (int (desc_block_size d')) s2"
      by blast
    from scan_inv [OF inv sc n] obtain off where p: "p = a + sizeof_arena + off"
      and i1: "heap_inv s1 (Some (a, off, d))" and nd: "n \<le> desc_block_size d"
      by blast
    have i2: "heap_inv s2 (Some (a, off, d'))"
      using split_inv [OF i1 sp [unfolded p]] .
    have nd': "n \<le> desc_block_size d'" using malloc_split_result [OF sp nd] by simp
    have io: "i = off div 16" using i by (simp add: slot_of_Inr p)
    note f = finish_inv [OF i2, folded io, folded s']
    show ?thesis using f p nd' by blast
  qed
  then show "heap_inv s' None"
    and "p \<noteq> NULL \<Longrightarrow> \<exists>a off k. a \<in> set (page_list s') \<and> live_at s' a off k \<and>
            p = a + sizeof_arena + off \<and> n \<le> desc_block_size k"
    by simp_all
qed

text \<open>
  \<^verbatim>\<open>malloc_init\<close> establishes the invariant, for a provider of distinct aligned pages.
\<close>

lemma malloc_init_inv:
  assumes "distinct (pool s)" and "\<forall>a\<in>set (pool s). a \<noteq> NULL \<and> a mod PGSIZE = 0"
  shows "heap_inv (malloc_init s) None"
  using assms
  by (simp add: heap_inv_def pages_ok_def lists_ok_def hole_ok_def malloc_init_def)



lemma malloc16_fresh:
  assumes "pool s0 = p # ps" and "p \<noteq> NULL"
  shows "\<exists>s1. malloc c (malloc_init s0) 16 = Inr (p + sizeof_arena, s1) \<and>
               page_list s1 = [p] \<and> arr (arena_at s1 p) 0 = 16"
proof -
  define s where "s = malloc_init s0"
  have fl: "free_list s = (\<lambda>i. [])" and pl: "page_list s = []" and po: "pool s = p # ps"
    using assms(1) by (simp_all add: s_def malloc_init_def)
  have scan: "malloc_scan c s 16 0 = malloc_scan c s 16 7"
    by (simp add: malloc_scan_next fl desc_cnt_def eval_nat_numeral)
  define sm where "sm = s\<lparr>pool := ps, page_list := [p],
      arena_at := (arena_at s)(p := \<lparr>magic = ARENA_MAGIC, arr = (\<lambda>i. 0)\<rparr>)\<rparr>"
  have refill: "malloc_scan c s 16 7 = Inr (Some (7, p + sizeof_arena, p), sm)"
    using assms(2)
    by (simp add: malloc_scan_refill fl pl po desc_cnt_def palloc_get_page_def push_free_def
        pop_free_def sm_def fun_upd_idem)
  obtain d' sp where split: "malloc_split sm 16 7 (p + sizeof_arena) = (d', sp)"
    by (cases "malloc_split sm 16 7 (p + sizeof_arena)")
  have le: "(16::nat) \<le> desc_block_size 7" by (simp add: desc_block_size_def)
  note r = malloc_split_result [OF split le]
  have d': "d' = 0"
  proof (rule ccontr)
    assume n: "d' \<noteq> 0"
    then obtain j where "d' = Suc j" by (cases d') simp_all
    then have "32 \<le> desc_block_size d'" by (simp add: desc_block_size_def)
    with r n show False by simp
  qed
  have slot: "slot_of p (p + sizeof_arena) = Inr 0"
    by (simp add: slot_of_def ARR_LEN_eq)
  define s1 where "s1 = set_arr p 0 16 sp"
  have m: "malloc c s 16 = Inr (p + sizeof_arena, s1)"
    using scan refill split slot
    by (simp add: malloc_def ASSERT_def PGSIZE_eq s1_def desc_block_size_def d')
  have "page_list s1 = [p]" "arr (arena_at s1 p) 0 = 16"
    using r by (simp_all add: s1_def set_arr_def sm_def)
  then show ?thesis using m unfolding s_def by blast
qed

lemma coalesce_spec_top:
  "idx < desc_cnt \<Longrightarrow> PGSIZE div 2 \<le> desc_block_size idx \<longleftrightarrow> desc_block_size idx = PGSIZE div 2"
  using desc_block_size_le [of idx] by (auto simp: PGSIZE_eq)

text \<open>
  Claim C2. In every state that satisfies the invariant of the allocator (\<^verbatim>\<open>malloc_init\<close>
  establishes it, \<^verbatim>\<open>malloc\<close> and \<^verbatim>\<open>free\<close> keep it, and the blocks \<^verbatim>\<open>malloc\<close> returns are
  live), freeing the live block \<open>p\<close> of size \<open>d = 16 * 2 ^ k\<close> at payload offset \<open>off\<close> of
  arena \<open>a\<close> clears the slot-map entry of the block and then returns what the coalesce
  loop in the words of the spec gives from \<open>off\<close> and class \<open>k\<close>, that is
  \<open>log2 d - 4\<close>: at size \<open>PGSIZE / 2\<close> the arena leaves the arena list and its page returns
  to the provider, in that one step; at a smaller size the buddy is at \<open>off XOR d\<close>, and
  if some slot-map entry in the buddy's range \<open>[boff, boff + d)\<close> is non-zero the block is
  pushed on the free list of its class and the loop stops, else the buddy is unlinked
  from that class's free list and the loop repeats with the lower of the two addresses,
  twice the size and the next class. The invariant holds again afterwards.
\<close>

theorem free_coalesces:
  assumes "heap_inv s None" and "a \<in> set (page_list s)" and "live_at s a off k"
  shows "let p = a + sizeof_arena + off;
             s0 = set_arr a (off div 16) 0
                    (if \<not> NDEBUG c then memset p 0xcc (desc_block_size k) s else s)
         in arr (arena_at s0 a) (off div 16) = 0 \<and>
            free c s p = Inr (coalesce_spec s0 a off k) \<and>
            heap_inv (coalesce_spec s0 a off k) None"
proof -
  define p where "p = a + sizeof_arena + off"
  define s0 where "s0 = set_arr a (off div 16) 0
                    (if \<not> NDEBUG c then memset p 0xcc (desc_block_size k) s else s)"
  have entry: "free c s p = coalesce s0 a p (desc_block_size k) k"
    and hole: "heap_inv s0 (Some (a, off, k))"
    unfolding p_def s0_def by (rule free_entry_inv [OF assms])+
  have cleared: "arr (arena_at s0 a) (off div 16) = 0"
    unfolding s0_def by (rule arr_set_arr_same)
  have "coalesce s0 a p (desc_block_size k) k = Inr (coalesce_spec s0 a off k)"
    and "heap_inv (coalesce_spec s0 a off k) None"
    using coalesce_inv [OF hole] by (simp_all add: p_def)
  then show ?thesis
    using entry cleared unfolding Let_def p_def [symmetric] s0_def [symmetric] by simp
qed

theorem free_coalesces_witness:
  "\<exists>s1. malloc config_ex heap_ex 16 = Inr (8716, s1) \<and>
     free config_ex s1 8716 =
       Inr (coalesce_spec (set_arr 8192 0 0 (memset 8716 0xcc 16 s1)) 8192 0 0) \<and>
     heap_inv (coalesce_spec (set_arr 8192 0 0 (memset 8716 0xcc 16 s1)) 8192 0 0) None"
proof -
  have po: "pool heap_raw = 8192 # [12288]" by (simp add: heap_raw_def)
  have nn: "(8192::nat) \<noteq> NULL" by (simp add: NULL_def)
  obtain s1 where m: "malloc config_ex heap_ex 16 = Inr (8716, s1)"
    and pl: "page_list s1 = [8192]" and ar: "arr (arena_at s1 8192) 0 = 16"
    using malloc16_fresh [OF po nn, of config_ex] by (auto simp: heap_ex_def sizeof_arena_eq)
  have i0: "heap_inv heap_ex None"
    unfolding heap_ex_def by (rule malloc_init_inv) (simp_all add: heap_raw_def NULL_def PGSIZE_eq)
  have i1: "heap_inv s1 None" using malloc_inv(1) [OF i0 m] .
  have a: "8192 \<in> set (page_list s1)" by (simp add: pl)
  have l: "live_at s1 8192 0 0"
    by (simp add: live_at_def desc_cnt_def PGSIZE_eq ar desc_block_size_def)
  show ?thesis
    using free_coalesces [OF i1 a l, of config_ex] m
    by (simp add: Let_def sizeof_arena_eq desc_block_size_def config_ex_def)
qed

section \<open>Reallocation and zeroed allocation\<close>





lemma live_at_cong:
  "arr (arena_at s' a) = arr (arena_at s a) \<Longrightarrow> live_at s' a off k = live_at s a off k"
  by (simp add: live_at_def)

















end
